theory Spec2Isabelle
  imports Complex_Main "HOL-Library.Multiset"
begin

section \<open>Algorithm steps (types/algorithm.ts, useAlgorithmMapping.ts)\<close>

text \<open>
  The source works on JavaScript numbers. Array elements are modelled as \<open>int\<close> (the
  generator's contract is a sequence of integers), indices, counters and sequence numbers
  as \<open>nat\<close> (they stay far below \<open>2^53\<close>, where a double is exact). Every error of
  the source is a plain \<open>Error\<close> carrying a message (not ASCII); the model names
  each throw site after the error class the specification uses for it.
\<close>

datatype error =
    InvalidInputError    \<comment> \<open>sort(): "cannot sort an empty array"\<close>
  | EmptyStepsError      \<comment> \<open>loadSteps(): "the step sequence must not be empty"\<close>
  | IndexOutOfRange      \<comment> \<open>jumpToStep(): "step index out of range"\<close>
  | InvalidArgument      \<comment> \<open>setPlaybackSpeed(): "speed must be between 0.1x and 5.0x"\<close>
  | StateConflictError   \<comment> \<open>store: "cannot change data / change algorithm / jump during playback",
                             "cannot start sorting"\<close>
  | NotFoundError        \<comment> \<open>restoreSnapshot(): "snapshot not found"\<close>

datatype OperationType = Compare | Swap | Insert | Merge

datatype AnimationType = Highlight | Slide | Fade

text \<open>
  The description of a step is a template string in the source (its fixed text is not
  ASCII). Each template is a constructor here, with the interpolated values as arguments.
\<close>

datatype Description =
    CompareElements int int     \<comment> \<open>bubble: compare elements a and b\<close>
  | SwapElements int int        \<comment> \<open>bubble: swap elements a and b\<close>
  | RoundDone nat int           \<comment> \<open>bubble: round k done, element v is in place\<close>
  | BubbleSortDone
  | CompareMinCandidate int int \<comment> \<open>selection: compare minimum candidate a with b\<close>
  | NewMinimum int              \<comment> \<open>selection: found a new minimum v\<close>
  | SwapMinTo int nat           \<comment> \<open>selection: swap minimum v to position i\<close>
  | PositionFixed nat int       \<comment> \<open>selection: element v at position i is final\<close>
  | SelectionSortDone
  | TakeOut int                 \<comment> \<open>insertion: take out element key\<close>
  | CompareShift int int        \<comment> \<open>insertion: compare a with key, shift needed\<close>
  | ShiftRight int              \<comment> \<open>insertion: move v one place to the right\<close>
  | InsertAt int nat            \<comment> \<open>insertion: insert key at position p\<close>
  | RoundSorted nat nat         \<comment> \<open>insertion: round i done, first i+1 elements sorted\<close>
  | InsertionSortDone

text \<open>The complexity labels \<open>O(1)\<close>, \<open>O(n)\<close>, \<open>O(n^2)\<close> and \<open>O(i)\<close>.\<close>

datatype BigO = O_1 | O_n | O_n2 | O_i

record Complexity =
  time :: BigO
  space :: BigO

record SortedRegion =
  rstart :: nat
  rend :: nat

record ArrayState =
  data :: "int list"
  highlightedIndices :: "nat list"
  comparisonPair :: "(nat \<times> nat) option"
  swapPair :: "(nat \<times> nat) option"
  sortedRegions :: "SortedRegion list"

record OperationInfo =
  op_type :: OperationType
  description :: Description
  complexity :: Complexity

record Colors =
  comparing :: string
  swapping :: string
  sorted_color :: string

record VisualHints =
  animationType :: AnimationType
  duration :: nat
  colors :: Colors

record AlgorithmStep =
  stepId :: string
  sequenceNumber :: nat
  arrayState :: ArrayState
  operation :: OperationInfo
  visualHints :: VisualHints

text \<open>\<open>defaultVisualizationMapping\<close>: animation and duration per operation type.\<close>

fun mapping_animation :: "OperationType \<Rightarrow> AnimationType" where
  "mapping_animation Compare = Highlight"
| "mapping_animation Swap = Slide"
| "mapping_animation Insert = Fade"
| "mapping_animation Merge = Slide"

fun mapping_duration :: "OperationType \<Rightarrow> nat" where
  "mapping_duration Compare = 300"
| "mapping_duration Swap = 500"
| "mapping_duration Insert = 400"
| "mapping_duration Merge = 450"

definition getVisualHints :: "OperationType \<Rightarrow> VisualHints" where
  "getVisualHints operationType =
     \<lparr>animationType = mapping_animation operationType,
      duration = mapping_duration operationType,
      colors = \<lparr>comparing = ''#3B82F6'', swapping = ''#EF4444'', sorted_color = ''#8B5CF6''\<rparr>\<rparr>"

subsection \<open>Step identifiers (createStepIdGenerator)\<close>

datatype SupportedAlgorithms = Bubble_sort | Selection_sort | Insertion_sort

fun algorithm_name :: "SupportedAlgorithms \<Rightarrow> string" where
  "algorithm_name Bubble_sort = ''bubble-sort''"
| "algorithm_name Selection_sort = ''selection-sort''"
| "algorithm_name Insertion_sort = ''insertion-sort''"

text \<open>\<open>String.replace(a, b)\<close> with a string pattern replaces the first occurrence only.\<close>

fun replace_first :: "char \<Rightarrow> char \<Rightarrow> string \<Rightarrow> string" where
  "replace_first a b [] = []"
| "replace_first a b (c # cs) = (if c = a then b # cs else c # replace_first a b cs)"

definition toUpperCase :: "string \<Rightarrow> string" where
  "toUpperCase s =
     map (\<lambda>c. if 97 \<le> (of_char c :: nat) \<and> (of_char c :: nat) \<le> 122
               then char_of ((of_char c :: nat) - 32) else c) s"

definition digit_chars :: string where
  "digit_chars = ''0123456789abcdefghijklmnopqrstuvwxyz''"

text \<open>
  \<open>Number.prototype.toString(radix)\<close> on a non-negative integer. The source calls it
  with radix 16 and 36; outside 2..36 JavaScript raises a RangeError, which no call here
  reaches.
\<close>

function toString_radix :: "nat \<Rightarrow> nat \<Rightarrow> string" where
  "toString_radix b n =
     (if b < 2 \<or> 36 < b then []
      else if n < b then [digit_chars ! n]
      else toString_radix b (n div b) @ [digit_chars ! (n mod b)])"
  by pat_completeness auto
termination
  by (relation "measure (\<lambda>(b, n). n)") auto

declare toString_radix.simps [simp del]

definition int_toString36 :: "int \<Rightarrow> string" where
  "int_toString36 t =
     (if t < 0 then CHR ''-'' # toString_radix 36 (nat (- t)) else toString_radix 36 (nat t))"

definition padStart :: "nat \<Rightarrow> char \<Rightarrow> string \<Rightarrow> string" where
  "padStart n c s = replicate (n - length s) c @ s"

definition id_prefix :: "SupportedAlgorithms \<Rightarrow> string" where
  "id_prefix algorithmType = toUpperCase (replace_first CHR ''-'' CHR ''_'' (algorithm_name algorithmType))"

text \<open>
  The identifier the generator returns when its counter has just become \<open>c\<close> and
  \<open>Date.now()\<close> reads \<open>now\<close>.
\<close>

definition make_stepId :: "SupportedAlgorithms \<Rightarrow> int \<Rightarrow> nat \<Rightarrow> string" where
  "make_stepId algorithmType now c =
     id_prefix algorithmType @ ''_'' @ int_toString36 now @ ''_'' @
     padStart 4 CHR ''0'' (toString_radix 16 c)"

section \<open>The step generator (useSortingAlgorithms.ts)\<close>

text \<open>
  The fields of the abstract class \<open>SortingAlgorithm\<close>. \<open>counter\<close> is the variable
  the closure of \<open>createStepIdGenerator\<close> holds; \<open>seqNumber\<close> is the field
  \<open>sequenceNumber\<close> of the class (the name is taken by the step's field). \<open>clock\<close>
  is the environment: \<open>clock k\<close> is what \<open>Date.now()\<close> returns at the \<open>k\<close>-th call of
  the identifier generator.
\<close>

record SortingAlgorithm =
  algorithmType :: SupportedAlgorithms
  inputData :: "int list"
  clock :: "nat \<Rightarrow> int"
  counter :: nat
  seqNumber :: nat
  steps :: "AlgorithmStep list"

definition createStep ::
  "ArrayState \<Rightarrow> OperationInfo \<Rightarrow> SortingAlgorithm \<Rightarrow> AlgorithmStep \<times> SortingAlgorithm" where
  "createStep a opn alg =
     (let c = counter alg + 1;
          sid = make_stepId (algorithmType alg) (clock alg c) c;
          s = seqNumber alg + 1
      in (\<lparr>stepId = sid, sequenceNumber = s, arrayState = a, operation = opn,
           visualHints = getVisualHints (op_type opn)\<rparr>,
          alg\<lparr>counter := c, seqNumber := s\<rparr>))"

text \<open>\<open>this.steps.push(this.createStep(arrayState, operation))\<close>\<close>

definition push_step :: "ArrayState \<Rightarrow> OperationInfo \<Rightarrow> SortingAlgorithm \<Rightarrow> SortingAlgorithm" where
  "push_step a opn alg =
     (case createStep a opn alg of (st, alg') \<Rightarrow> alg'\<lparr>steps := steps alg' @ [st]\<rparr>)"

definition op_info :: "OperationType \<Rightarrow> Description \<Rightarrow> BigO \<Rightarrow> OperationInfo" where
  "op_info t d tm = \<lparr>op_type = t, description = d, complexity = \<lparr>time = tm, space = O_1\<rparr>\<rparr>"

subsection \<open>BubbleSort.sort\<close>

definition bubble_regions :: "nat \<Rightarrow> nat \<Rightarrow> SortedRegion list" where
  "bubble_regions n i = (if i > 0 then [\<lparr>rstart = n - i, rend = n - 1\<rparr>] else [])"

text \<open>The inner loop \<open>for (j = 0; j < n - i - 1; j++)\<close>, entered at \<open>j\<close>.\<close>

function bubble_inner ::
  "nat \<Rightarrow> nat \<Rightarrow> nat \<Rightarrow> int list \<Rightarrow> bool \<Rightarrow> SortingAlgorithm \<Rightarrow> int list \<times> bool \<times> SortingAlgorithm" where
  "bubble_inner n i j dat hasSwapped alg =
     (if j < n - i - 1 then
        (let alg1 = push_step
               \<lparr>data = dat, highlightedIndices = [j, j + 1], comparisonPair = Some (j, j + 1),
                swapPair = None, sortedRegions = bubble_regions n i\<rparr>
               (op_info Compare (CompareElements (dat ! j) (dat ! (j + 1))) O_1) alg
         in if dat ! j > dat ! (j + 1) then
              (let alg2 = push_step
                     \<lparr>data = dat, highlightedIndices = [j, j + 1], comparisonPair = None,
                      swapPair = Some (j, j + 1), sortedRegions = bubble_regions n i\<rparr>
                     (op_info Swap (SwapElements (dat ! j) (dat ! (j + 1))) O_1) alg1;
                   temp = dat ! j;
                   dat1 = dat[j := dat ! (j + 1)];
                   dat2 = dat1[j + 1 := temp]
               in bubble_inner n i (j + 1) dat2 True alg2)
            else bubble_inner n i (j + 1) dat hasSwapped alg1)
      else (dat, hasSwapped, alg))"
  by pat_completeness auto
termination
  by (relation "measure (\<lambda>(n, i, j, dat, hasSwapped, alg). n - i - 1 - j)") auto

declare bubble_inner.simps [simp del]

text \<open>The outer loop \<open>for (i = 0; i < n - 1; i++)\<close> with its early exit, entered at \<open>i\<close>.\<close>

function bubble_outer ::
  "nat \<Rightarrow> nat \<Rightarrow> int list \<Rightarrow> SortingAlgorithm \<Rightarrow> int list \<times> SortingAlgorithm" where
  "bubble_outer n i dat alg =
     (if i < n - 1 then
        (case bubble_inner n i 0 dat False alg of
           (dat1, hasSwapped, alg1) \<Rightarrow>
             (let alg2 = push_step
                    \<lparr>data = dat1, highlightedIndices = [n - i - 1], comparisonPair = None,
                     swapPair = None, sortedRegions = [\<lparr>rstart = n - i - 1, rend = n - 1\<rparr>]\<rparr>
                    (op_info Compare (RoundDone (i + 1) (dat1 ! (n - i - 1))) O_n) alg1
              in if \<not> hasSwapped then (dat1, alg2)
                 else bubble_outer n (i + 1) dat1 alg2))
      else (dat, alg))"
  by pat_completeness auto
termination
  by (relation "measure (\<lambda>(n, i, dat, alg). n - i)") auto

declare bubble_outer.simps [simp del]

definition BubbleSort_sort ::
  "SortingAlgorithm \<Rightarrow> (error + AlgorithmStep list) \<times> SortingAlgorithm" where
  "BubbleSort_sort alg =
     (let dat = inputData alg; n = length dat
      in if n = 0 then (Inl InvalidInputError, alg)
         else (case bubble_outer n 0 dat alg of
                 (dat1, alg1) \<Rightarrow>
                   (let alg2 = push_step
                          \<lparr>data = dat1, highlightedIndices = [], comparisonPair = None,
                           swapPair = None, sortedRegions = [\<lparr>rstart = 0, rend = n - 1\<rparr>]\<rparr>
                          (op_info Compare BubbleSortDone O_n2) alg1
                    in (Inr (steps alg2), alg2))))"

subsection \<open>SelectionSort.sort\<close>

definition selection_regions :: "nat \<Rightarrow> SortedRegion list" where
  "selection_regions i = (if i > 0 then [\<lparr>rstart = 0, rend = i - 1\<rparr>] else [])"

text \<open>
  The scan \<open>for (j = i + 1; j < n; j++)\<close> for the minimum, entered at \<open>j\<close>. It reads
  \<open>data\<close> and never writes it, so only \<open>minIndex\<close> and the generator are returned.
\<close>

function selection_inner ::
  "nat \<Rightarrow> nat \<Rightarrow> nat \<Rightarrow> nat \<Rightarrow> int list \<Rightarrow> SortingAlgorithm \<Rightarrow> nat \<times> SortingAlgorithm" where
  "selection_inner n i j minIndex dat alg =
     (if j < n then
        (let alg1 = push_step
               \<lparr>data = dat, highlightedIndices = [minIndex, j],
                comparisonPair = Some (minIndex, j), swapPair = None,
                sortedRegions = selection_regions i\<rparr>
               (op_info Compare (CompareMinCandidate (dat ! minIndex) (dat ! j)) O_1) alg
         in if dat ! j < dat ! minIndex then
              (let minIndex1 = j;
                   alg2 = push_step
                     \<lparr>data = dat, highlightedIndices = [minIndex1], comparisonPair = None,
                      swapPair = None, sortedRegions = selection_regions i\<rparr>
                     (op_info Compare (NewMinimum (dat ! minIndex1)) O_1) alg1
               in selection_inner n i (j + 1) minIndex1 dat alg2)
            else selection_inner n i (j + 1) minIndex dat alg1)
      else (minIndex, alg))"
  by pat_completeness auto
termination
  by (relation "measure (\<lambda>(n, i, j, minIndex, dat, alg). n - j)") auto

declare selection_inner.simps [simp del]

text \<open>The outer loop \<open>for (i = 0; i < n - 1; i++)\<close>, entered at \<open>i\<close>.\<close>

function selection_outer ::
  "nat \<Rightarrow> nat \<Rightarrow> int list \<Rightarrow> SortingAlgorithm \<Rightarrow> int list \<times> SortingAlgorithm" where
  "selection_outer n i dat alg =
     (if i < n - 1 then
        (case selection_inner n i (i + 1) i dat alg of
           (minIndex, alg1) \<Rightarrow>
             (let (dat1, alg2) =
                    (if minIndex \<noteq> i then
                       (let alg' = push_step
                              \<lparr>data = dat, highlightedIndices = [i, minIndex],
                               comparisonPair = None, swapPair = Some (i, minIndex),
                               sortedRegions = selection_regions i\<rparr>
                              (op_info Swap (SwapMinTo (dat ! minIndex) i) O_1) alg1;
                            temp = dat ! i;
                            d1 = dat[i := dat ! minIndex];
                            d2 = d1[minIndex := temp]
                        in (d2, alg'))
                     else (dat, alg1));
                  alg3 = push_step
                    \<lparr>data = dat1, highlightedIndices = [i], comparisonPair = None,
                     swapPair = None, sortedRegions = [\<lparr>rstart = 0, rend = i\<rparr>]\<rparr>
                    (op_info Compare (PositionFixed i (dat1 ! i)) O_n) alg2
              in selection_outer n (i + 1) dat1 alg3))
      else (dat, alg))"
  by pat_completeness auto
termination
  by (relation "measure (\<lambda>(n, i, dat, alg). n - i)") auto

declare selection_outer.simps [simp del]

definition SelectionSort_sort ::
  "SortingAlgorithm \<Rightarrow> (error + AlgorithmStep list) \<times> SortingAlgorithm" where
  "SelectionSort_sort alg =
     (let dat = inputData alg; n = length dat
      in if n = 0 then (Inl InvalidInputError, alg)
         else (case selection_outer n 0 dat alg of
                 (dat1, alg1) \<Rightarrow>
                   (let alg2 = push_step
                          \<lparr>data = dat1, highlightedIndices = [], comparisonPair = None,
                           swapPair = None, sortedRegions = [\<lparr>rstart = 0, rend = n - 1\<rparr>]\<rparr>
                          (op_info Compare SelectionSortDone O_n2) alg1
                    in (Inr (steps alg2), alg2))))"

subsection \<open>InsertionSort.sort\<close>

text \<open>
  The search \<open>while (j >= 0 && data[j] > key)\<close>, entered at \<open>j\<close>. \<open>j\<close> reaches \<open>-1\<close>
  when the key is the smallest element so far, so it is an \<open>int\<close>; every index read or
  written, \<open>j\<close> under the guard and \<open>j + 1\<close>, is non-negative.
\<close>

function insertion_while ::
  "nat \<Rightarrow> int \<Rightarrow> int \<Rightarrow> int list \<Rightarrow> SortingAlgorithm \<Rightarrow> int \<times> int list \<times> SortingAlgorithm" where
  "insertion_while i key j dat alg =
     (if j \<ge> 0 \<and> dat ! nat j > key then
        (let alg1 = push_step
               \<lparr>data = dat, highlightedIndices = [nat j, nat (j + 1)],
                comparisonPair = Some (nat j, nat (j + 1)), swapPair = None,
                sortedRegions = [\<lparr>rstart = 0, rend = i\<rparr>]\<rparr>
               (op_info Compare (CompareShift (dat ! nat j) key) O_1) alg;
             dat1 = dat[nat (j + 1) := dat ! nat j];
             alg2 = push_step
               \<lparr>data = dat1, highlightedIndices = [nat (j + 1)], comparisonPair = None,
                swapPair = None, sortedRegions = [\<lparr>rstart = 0, rend = i\<rparr>]\<rparr>
               (op_info Insert (ShiftRight (dat1 ! nat (j + 1))) O_1) alg1
         in insertion_while i key (j - 1) dat1 alg2)
      else (j, dat, alg))"
  by pat_completeness auto
termination
  by (relation "measure (\<lambda>(i, key, j, dat, alg). nat (j + 1))") auto

declare insertion_while.simps [simp del]

text \<open>The outer loop \<open>for (i = 1; i < n; i++)\<close>, entered at \<open>i\<close>.\<close>

function insertion_outer ::
  "nat \<Rightarrow> nat \<Rightarrow> int list \<Rightarrow> SortingAlgorithm \<Rightarrow> int list \<times> SortingAlgorithm" where
  "insertion_outer n i dat alg =
     (if i < n then
        (let key = dat ! i;
             alg1 = push_step
               \<lparr>data = dat, highlightedIndices = [i], comparisonPair = None,
                swapPair = None, sortedRegions = [\<lparr>rstart = 0, rend = i - 1\<rparr>]\<rparr>
               (op_info Compare (TakeOut key) O_1) alg
         in case insertion_while i key (int i - 1) dat alg1 of
              (j, dat1, alg2) \<Rightarrow>
                (let dat2 = dat1[nat (j + 1) := key];
                     alg3 = push_step
                       \<lparr>data = dat2, highlightedIndices = [nat (j + 1)], comparisonPair = None,
                        swapPair = None, sortedRegions = [\<lparr>rstart = 0, rend = i\<rparr>]\<rparr>
                       (op_info Insert (InsertAt key (nat (j + 1))) O_1) alg2;
                     alg4 = push_step
                       \<lparr>data = dat2, highlightedIndices = [], comparisonPair = None,
                        swapPair = None, sortedRegions = [\<lparr>rstart = 0, rend = i\<rparr>]\<rparr>
                       (op_info Compare (RoundSorted i (i + 1)) O_i) alg3
                 in insertion_outer n (i + 1) dat2 alg4))
      else (dat, alg))"
  by pat_completeness auto
termination
  by (relation "measure (\<lambda>(n, i, dat, alg). n - i)") auto

declare insertion_outer.simps [simp del]

definition InsertionSort_sort ::
  "SortingAlgorithm \<Rightarrow> (error + AlgorithmStep list) \<times> SortingAlgorithm" where
  "InsertionSort_sort alg =
     (let dat = inputData alg; n = length dat
      in if n = 0 then (Inl InvalidInputError, alg)
         else (case insertion_outer n 1 dat alg of
                 (dat1, alg1) \<Rightarrow>
                   (let alg2 = push_step
                          \<lparr>data = dat1, highlightedIndices = [], comparisonPair = None,
                           swapPair = None, sortedRegions = [\<lparr>rstart = 0, rend = n - 1\<rparr>]\<rparr>
                          (op_info Compare InsertionSortDone O_n2) alg1
                    in (Inr (steps alg2), alg2))))"

subsection \<open>SortingAlgorithmFactory\<close>

text \<open>
  \<open>create\<close> builds a fresh instance: no steps, sequence number 0, a new identifier
  generator. \<open>sort_steps\<close> is the abstract method \<open>sort()\<close>, dispatched on the class
  of the instance. In the three methods every array read and write stays within the
  array: the loop guards bound the indices by its length.
\<close>

definition create :: "(nat \<Rightarrow> int) \<Rightarrow> SupportedAlgorithms \<Rightarrow> int list \<Rightarrow> SortingAlgorithm" where
  "create clk t xs =
     \<lparr>algorithmType = t, inputData = xs, clock = clk, counter = 0, seqNumber = 0, steps = []\<rparr>"

definition sort_steps :: "SortingAlgorithm \<Rightarrow> (error + AlgorithmStep list) \<times> SortingAlgorithm" where
  "sort_steps alg =
     (case algorithmType alg of
        Bubble_sort \<Rightarrow> BubbleSort_sort alg
      | Selection_sort \<Rightarrow> SelectionSort_sort alg
      | Insertion_sort \<Rightarrow> InsertionSort_sort alg)"

definition generateSteps ::
  "(nat \<Rightarrow> int) \<Rightarrow> SupportedAlgorithms \<Rightarrow> int list \<Rightarrow> error + AlgorithmStep list" where
  "generateSteps clk t xs = fst (sort_steps (create clk t xs))"

subsection \<open>AlgorithmValidator\<close>

text \<open>
  \<open>validateSortResult\<close> compares the JSON text of the last step's data with that of
  the input sorted by \<open>(a, b) => a - b\<close>; on integer arrays this is equality with the
  ascending sort. \<open>validateStepSequence\<close> checks the sequence numbers position by
  position and then that the set of identifiers has as many elements as there are steps.
\<close>

definition validateSortResult :: "int list \<Rightarrow> AlgorithmStep list \<Rightarrow> bool" where
  "validateSortResult original ss =
     (if length ss = 0 then False
      else (let finalStep = last ss;
                sortedData = data (arrayState finalStep);
                expectedSorted = sort original
            in sortedData = expectedSorted))"

definition validateStepSequence :: "AlgorithmStep list \<Rightarrow> bool" where
  "validateStepSequence ss =
     (if length ss = 0 then False
      else if \<not> list_all (\<lambda>i. sequenceNumber (ss ! i) = i + 1) [0..<length ss] then False
      else card (set (map stepId ss)) = length ss)"

section \<open>The player (class SortingPlayer, useSortingPlayer.ts)\<close>

text \<open>
  In the sources at hand the class is the second part of \<open>composables/themeManager.ts\<close>.
  A step index is modelled as \<open>int\<close> and a point in time as \<open>real\<close>; rounding and
  fractional indices are outside the model. The renderer and the event callbacks
  (\<open>onStateChange\<close>, \<open>onStepChange\<close>, \<open>onComplete\<close>, \<open>onError\<close>) are external
  collaborators: a rendering error is caught inside \<open>renderCurrentStep\<close>, and the
  callbacks are taken not to call back into the player, so neither changes its fields.
\<close>

datatype PlayerState = Idle | Playing | Paused | Completed

text \<open>
  A speed or a delay is a JavaScript number: a finite value, an infinity or \<open>NaN\<close>.
  Every comparison with \<open>NaN\<close> is false. \<open>js_div_pos a x\<close> is \<open>a / x\<close> for a finite
  \<open>a > 0\<close> (a zero divisor gives an infinity; its sign is that of the zero, which the
  model does not tell apart). \<open>js_min\<close> and \<open>js_max\<close> are \<open>Math.min\<close> and
  \<open>Math.max\<close>, which return \<open>NaN\<close> as soon as an argument is \<open>NaN\<close>.
\<close>

datatype number = Num real | PosInf | NegInf | NaN

fun js_lt :: "number \<Rightarrow> number \<Rightarrow> bool" where
  "js_lt NaN y = False"
| "js_lt x NaN = False"
| "js_lt (Num a) (Num b) = (a < b)"
| "js_lt x NegInf = False"
| "js_lt NegInf y = True"
| "js_lt PosInf y = False"
| "js_lt x PosInf = True"

definition js_gt :: "number \<Rightarrow> number \<Rightarrow> bool" where
  "js_gt x y = js_lt y x"

fun js_div_pos :: "real \<Rightarrow> number \<Rightarrow> number" where
  "js_div_pos a (Num s) = (if s = 0 then PosInf else Num (a / s))"
| "js_div_pos a PosInf = Num 0"
| "js_div_pos a NegInf = Num 0"
| "js_div_pos a NaN = NaN"

fun js_min :: "number \<Rightarrow> number \<Rightarrow> number" where
  "js_min NaN y = NaN"
| "js_min x NaN = NaN"
| "js_min x y = (if js_lt y x then y else x)"

fun js_max :: "number \<Rightarrow> number \<Rightarrow> number" where
  "js_max NaN y = NaN"
| "js_max x NaN = NaN"
| "js_max x y = (if js_lt x y then y else x)"

text \<open>
  The delay \<open>setTimeout\<close> waits for a given argument: \<open>NaN\<close> and the infinities
  convert to 0, and a negative delay counts as 0. A finite delay that is not negative is
  taken as it is: its truncation to whole milliseconds and the 32-bit range of the
  browser's conversion are outside the model.
\<close>

fun timeout_ms :: "number \<Rightarrow> real" where
  "timeout_ms (Num r) = (if r < 0 then 0 else r)"
| "timeout_ms x = 0"

record PlayerConfig =
  autoPlay :: bool
  playbackSpeed :: number
  loopMode :: bool
  showStepInfo :: bool

definition defaultPlayerConfig :: PlayerConfig where
  "defaultPlayerConfig = \<lparr>autoPlay = False, playbackSpeed = Num 1.0, loopMode = False, showStepInfo = True\<rparr>"

text \<open>
  The browser's timer queue is part of the state. A pending timeout has the handle
  \<open>setTimeout\<close> returned, the time it is due, and its callback: \<open>Advance\<close> is the
  callback of \<open>scheduleNextStep\<close>, \<open>Restart\<close> the one \<open>complete\<close> schedules in
  loop mode.
\<close>

datatype TimerKind = Advance | Restart

record Timer =
  handle :: nat
  due :: real
  kind :: TimerKind

record SortingPlayer =
  steps_p :: "AlgorithmStep list"
  currentStepIndex :: int
  state :: PlayerState
  playTimer :: "nat option"
  config :: PlayerConfig
  timers :: "Timer list"      \<comment> \<open>pending timeouts, in creation order\<close>
  now :: real                  \<comment> \<open>the current time in milliseconds\<close>
  nextHandle :: nat            \<comment> \<open>the handle the next \<open>setTimeout\<close> returns\<close>

definition new_player :: "PlayerConfig \<Rightarrow> SortingPlayer" where
  "new_player cfg =
     \<lparr>steps_p = [], currentStepIndex = 0, state = Idle, playTimer = None, config = cfg,
      timers = [], now = 0, nextHandle = 1\<rparr>"

definition setTimeout :: "TimerKind \<Rightarrow> number \<Rightarrow> SortingPlayer \<Rightarrow> nat \<times> SortingPlayer" where
  "setTimeout k delay p =
     (nextHandle p,
      p\<lparr>timers := timers p @ [\<lparr>handle = nextHandle p, due = now p + timeout_ms delay, kind = k\<rparr>],
        nextHandle := nextHandle p + 1\<rparr>)"

definition clearTimeout :: "nat \<Rightarrow> SortingPlayer \<Rightarrow> SortingPlayer" where
  "clearTimeout h p = p\<lparr>timers := filter (\<lambda>t. handle t \<noteq> h) (timers p)\<rparr>"

definition setState :: "PlayerState \<Rightarrow> SortingPlayer \<Rightarrow> SortingPlayer" where
  "setState newState p = (if state p \<noteq> newState then p\<lparr>state := newState\<rparr> else p)"

definition scheduleNextStep :: "SortingPlayer \<Rightarrow> SortingPlayer" where
  "scheduleNextStep p =
     (if state p \<noteq> Playing then p
      else (let baseDelay = 600;
                delay = js_div_pos baseDelay (playbackSpeed (config p))
            in case setTimeout Advance delay p of (h, p') \<Rightarrow> p'\<lparr>playTimer := Some h\<rparr>))"

definition clearTimer :: "SortingPlayer \<Rightarrow> SortingPlayer" where
  "clearTimer p =
     (case playTimer p of
        None \<Rightarrow> p
      | Some h \<Rightarrow> (clearTimeout h p)\<lparr>playTimer := None\<rparr>)"

definition reset :: "SortingPlayer \<Rightarrow> SortingPlayer" where
  "reset p = setState Idle (p\<lparr>currentStepIndex := 0\<rparr>)"

definition play :: "SortingPlayer \<Rightarrow> SortingPlayer" where
  "play p =
     (if state p = Playing then p
      else (let p1 = (if state p = Completed \<and> loopMode (config p) then reset p else p)
            in scheduleNextStep (setState Playing p1)))"

definition pause :: "SortingPlayer \<Rightarrow> SortingPlayer" where
  "pause p = (if state p \<noteq> Playing then p else clearTimer (setState Paused p))"

definition stop :: "SortingPlayer \<Rightarrow> SortingPlayer" where
  "stop p = reset (pause p)"

definition complete :: "SortingPlayer \<Rightarrow> SortingPlayer" where
  "complete p =
     (let p1 = setState Completed (clearTimer p)
      in if loopMode (config p1) then snd (setTimeout Restart (Num 1000) p1) else p1)"

definition nextStep :: "SortingPlayer \<Rightarrow> SortingPlayer" where
  "nextStep p =
     (if currentStepIndex p < int (length (steps_p p)) - 1
      then p\<lparr>currentStepIndex := currentStepIndex p + 1\<rparr>
      else complete p)"

definition previousStep :: "SortingPlayer \<Rightarrow> SortingPlayer" where
  "previousStep p =
     (if currentStepIndex p > 0 then p\<lparr>currentStepIndex := currentStepIndex p - 1\<rparr> else p)"

text \<open>
  A method that can throw returns the error, if any, and the player as the call leaves
  it. \<open>loadSteps\<close> takes \<open>None\<close> for a \<open>null\<close> or \<open>undefined\<close> argument.
\<close>

definition jumpToStep :: "int \<Rightarrow> SortingPlayer \<Rightarrow> error option \<times> SortingPlayer" where
  "jumpToStep stepIndex p =
     (if stepIndex < 0 \<or> stepIndex \<ge> int (length (steps_p p)) then (Some IndexOutOfRange, p)
      else (None, p\<lparr>currentStepIndex := stepIndex\<rparr>))"

definition setPlaybackSpeed :: "number \<Rightarrow> SortingPlayer \<Rightarrow> error option \<times> SortingPlayer" where
  "setPlaybackSpeed speed p =
     (if js_lt speed (Num 0.1) \<or> js_gt speed (Num 5.0) then (Some InvalidArgument, p)
      else (let p1 = p\<lparr>config := (config p)\<lparr>playbackSpeed := speed\<rparr>\<rparr>
            in (None, if state p1 = Playing then scheduleNextStep (clearTimer p1) else p1)))"

definition setLoopMode :: "bool \<Rightarrow> SortingPlayer \<Rightarrow> SortingPlayer" where
  "setLoopMode enabled p = p\<lparr>config := (config p)\<lparr>loopMode := enabled\<rparr>\<rparr>"

definition loadSteps :: "AlgorithmStep list option \<Rightarrow> SortingPlayer \<Rightarrow> error option \<times> SortingPlayer" where
  "loadSteps arg p =
     (case arg of
        None \<Rightarrow> (Some EmptyStepsError, p)
      | Some ss \<Rightarrow>
          if length ss = 0 then (Some EmptyStepsError, p)
          else (let p1 = setState Idle (p\<lparr>steps_p := ss, currentStepIndex := 0\<rparr>)
                in (None, if autoPlay (config p1) then play p1 else p1)))"

definition cleanup :: "SortingPlayer \<Rightarrow> SortingPlayer" where
  "cleanup p = setState Idle ((clearTimer p)\<lparr>steps_p := []\<rparr>)"

subsection \<open>The event loop\<close>

text \<open>
  What a fired timeout runs. The browser has already removed the timeout from its queue;
  \<open>playTimer\<close> still holds the handle.
\<close>

definition callback :: "TimerKind \<Rightarrow> SortingPlayer \<Rightarrow> SortingPlayer" where
  "callback k p =
     (case k of
        Advance \<Rightarrow> (let p1 = nextStep p in if state p1 = Playing then scheduleNextStep p1 else p1)
      | Restart \<Rightarrow> play (reset p))"

datatype Call =
    CPlay | CPause | CStop | CReset | CNextStep | CPreviousStep | CJumpToStep int
  | CSetPlaybackSpeed number | CSetLoopMode bool | CLoadSteps "AlgorithmStep list option"

definition do_call :: "Call \<Rightarrow> SortingPlayer \<Rightarrow> error option \<times> SortingPlayer" where
  "do_call c p =
     (case c of
        CPlay \<Rightarrow> (None, play p)
      | CPause \<Rightarrow> (None, pause p)
      | CStop \<Rightarrow> (None, stop p)
      | CReset \<Rightarrow> (None, reset p)
      | CNextStep \<Rightarrow> (None, nextStep p)
      | CPreviousStep \<Rightarrow> (None, previousStep p)
      | CJumpToStep i \<Rightarrow> jumpToStep i p
      | CSetPlaybackSpeed x \<Rightarrow> setPlaybackSpeed x p
      | CSetLoopMode b \<Rightarrow> (None, setLoopMode b p)
      | CLoadSteps arg \<Rightarrow> loadSteps arg p)"

text \<open>
  One turn of the single-threaded event loop: the caller invokes a method (an error goes
  to the caller, the player stays as the call left it), time passes without a timeout
  coming due, or the pending timeout that is due first fires at its due time (timeouts
  are taken to fire on time). An event that cannot happen in the current state changes
  nothing.
\<close>

datatype Event = Invoke Call | Wait real | Fire nat

definition fire :: "nat \<Rightarrow> SortingPlayer \<Rightarrow> SortingPlayer" where
  "fire h p =
     (case find (\<lambda>t. handle t = h) (timers p) of
        None \<Rightarrow> p
      | Some t \<Rightarrow>
          if list_all (\<lambda>u. due t \<le> due u) (timers p)
          then callback (kind t)
                 (p\<lparr>timers := filter (\<lambda>u. handle u \<noteq> h) (timers p), now := max (now p) (due t)\<rparr>)
          else p)"

definition exec :: "Event \<Rightarrow> SortingPlayer \<Rightarrow> SortingPlayer" where
  "exec e p =
     (case e of
        Invoke c \<Rightarrow> snd (do_call c p)
      | Wait d \<Rightarrow>
          if 0 \<le> d \<and> list_all (\<lambda>u. now p + d \<le> due u) (timers p) then p\<lparr>now := now p + d\<rparr> else p
      | Fire h \<Rightarrow> fire h p)"

definition run :: "Event list \<Rightarrow> SortingPlayer \<Rightarrow> SortingPlayer" where
  "run es p = foldl (\<lambda>q e. exec e q) p es"

definition pending_advances :: "SortingPlayer \<Rightarrow> Timer list" where
  "pending_advances p = filter (\<lambda>t. kind t = Advance) (timers p)"

section \<open>The store (stores/sortingVisualization.ts)\<close>

text \<open>
  The description of a snapshot is again a template string with fixed text that is not
  ASCII: one constructor per call site of \<open>saveSnapshot\<close>, with the interpolated values;
  \<open>Custom\<close> is a call of the exported \<open>saveSnapshot(description, details?)\<close>.
\<close>

datatype SnapshotLabel =
    SetData "int list" | SelectAlgorithm SupportedAlgorithms | StartSorting SupportedAlgorithms
  | PausePlayback int | ResumePlayback int | StopPlayback | JumpStep int | AdjustSpeed number
  | Custom string "string option"

record SnapshotState =
  s_currentData :: "int list"
  s_currentStep :: int
  s_playerState :: PlayerState
  s_selectedAlgorithm :: SupportedAlgorithms
  s_steps :: "AlgorithmStep list"

record TimelineSnapshot =
  snap_id :: string
  timestamp :: int
  snap_description :: SnapshotLabel
  snap_state :: SnapshotState

text \<open>
  The refs of the store that the modelled actions read or write. \<open>errorMessage\<close> holds
  the error whose message the source stores (\<open>None\<close> for the empty string).
\<close>

record SortingStore =
  selectedAlgorithm :: SupportedAlgorithms
  originalData :: "int list"
  currentData :: "int list"
  steps_s :: "AlgorithmStep list"
  playerState :: PlayerState
  currentStep :: int
  playbackSpeed_s :: number
  config_playbackSpeed :: number
  isLoading :: bool
  errorMessage :: "error option"
  timeline :: "TimelineSnapshot list"
  currentSnapshotIndex :: int
  isTimeTravel :: bool
  maxSnapshots :: nat

definition initial_store :: SortingStore where
  "initial_store =
     \<lparr>selectedAlgorithm = Bubble_sort, originalData = [64, 34, 25, 12, 22, 11, 90],
      currentData = [64, 34, 25, 12, 22, 11, 90], steps_s = [], playerState = Idle,
      currentStep = 0, playbackSpeed_s = Num 1.0, config_playbackSpeed = Num 1.0, isLoading = False,
      errorMessage = None, timeline = [], currentSnapshotIndex = - 1, isTimeTravel = False,
      maxSnapshots = 100\<rparr>"

definition totalSteps :: "SortingStore \<Rightarrow> int" where
  "totalSteps st = int (length (steps_s st))"

definition canStart :: "SortingStore \<Rightarrow> bool" where
  "canStart st \<longleftrightarrow> playerState st = Idle \<and> length (currentData st) > 0"

definition canNavigate :: "SortingStore \<Rightarrow> bool" where
  "canNavigate st \<longleftrightarrow> playerState st \<noteq> Playing \<and> totalSteps st > 0"

text \<open>
  \<open>saveSnapshot\<close>. The identifier (built from \<open>Date.now()\<close> and \<open>Math.random()\<close>)
  and the timestamp come from the environment: \<open>env\<close> is the pair the call obtains.
\<close>

definition saveSnapshot :: "string \<times> int \<Rightarrow> SnapshotLabel \<Rightarrow> SortingStore \<Rightarrow> SortingStore" where
  "saveSnapshot env label st =
     (if isTimeTravel st then st
      else (let snapshot =
                  \<lparr>snap_id = fst env, timestamp = snd env, snap_description = label,
                   snap_state =
                     \<lparr>s_currentData = currentData st, s_currentStep = currentStep st,
                      s_playerState = playerState st, s_selectedAlgorithm = selectedAlgorithm st,
                      s_steps = steps_s st\<rparr>\<rparr>;
                st1 = st\<lparr>timeline := timeline st @ [snapshot]\<rparr>;
                st2 = st1\<lparr>currentSnapshotIndex := int (length (timeline st1)) - 1\<rparr>
            in if length (timeline st2) > maxSnapshots st2
               then st2\<lparr>timeline := tl (timeline st2),
                        currentSnapshotIndex := currentSnapshotIndex st2 - 1\<rparr>
               else st2))"

text \<open>\<open>Array.prototype.findIndex\<close>: the first position that satisfies \<open>P\<close>, or \<open>-1\<close>.\<close>

fun findIndex :: "('a \<Rightarrow> bool) \<Rightarrow> 'a list \<Rightarrow> int" where
  "findIndex P [] = - 1"
| "findIndex P (x # xs) = (if P x then 0 else (let r = findIndex P xs in if r < 0 then - 1 else r + 1))"

definition restoreSnapshot :: "string \<Rightarrow> SortingStore \<Rightarrow> error option \<times> SortingStore" where
  "restoreSnapshot snapshotId st =
     (case find (\<lambda>s. snap_id s = snapshotId) (timeline st) of
        None \<Rightarrow> (Some NotFoundError, st)
      | Some snapshot \<Rightarrow>
          (None,
           st\<lparr>currentData := s_currentData (snap_state snapshot),
              currentStep := s_currentStep (snap_state snapshot),
              playerState := s_playerState (snap_state snapshot),
              selectedAlgorithm := s_selectedAlgorithm (snap_state snapshot),
              steps_s := s_steps (snap_state snapshot),
              currentSnapshotIndex := findIndex (\<lambda>s. snap_id s = snapshotId) (timeline st),
              isTimeTravel := False\<rparr>))"

definition clearTimeline :: "SortingStore \<Rightarrow> SortingStore" where
  "clearTimeline st = st\<lparr>timeline := [], currentSnapshotIndex := - 1\<rparr>"

record TimelineExport =
  snapshots :: "TimelineSnapshot list"
  totalCount :: nat
  exportTime :: int

definition exportTimeline :: "int \<Rightarrow> SortingStore \<Rightarrow> TimelineExport" where
  "exportTimeline t st = \<lparr>snapshots = timeline st, totalCount = length (timeline st), exportTime = t\<rparr>"

definition importTimeline :: "TimelineSnapshot list \<Rightarrow> SortingStore \<Rightarrow> SortingStore" where
  "importTimeline snaps st =
     (let st1 = st\<lparr>timeline := snaps\<rparr>
      in st1\<lparr>currentSnapshotIndex := int (length (timeline st1)) - 1\<rparr>)"

definition resetPlayback :: "SortingStore \<Rightarrow> SortingStore" where
  "resetPlayback st =
     st\<lparr>playerState := Idle, currentStep := 0, steps_s := [], currentData := originalData st,
        errorMessage := None\<rparr>"

definition setData :: "string \<times> int \<Rightarrow> int list \<Rightarrow> SortingStore \<Rightarrow> error option \<times> SortingStore" where
  "setData env dat st =
     (if playerState st = Playing then (Some StateConflictError, st)
      else (None, saveSnapshot env (SetData dat)
                    (resetPlayback (st\<lparr>originalData := dat, currentData := dat\<rparr>))))"

definition selectAlgorithm ::
  "string \<times> int \<Rightarrow> SupportedAlgorithms \<Rightarrow> SortingStore \<Rightarrow> error option \<times> SortingStore" where
  "selectAlgorithm env algorithm st =
     (if playerState st = Playing then (Some StateConflictError, st)
      else (None, saveSnapshot env (SelectAlgorithm algorithm)
                    (resetPlayback (st\<lparr>selectedAlgorithm := algorithm\<rparr>))))"

text \<open>
  \<open>startSorting\<close>: the guard throws before the \<open>try\<close>; an error of the generator is
  stored in \<open>errorMessage\<close> and thrown again; \<open>finally\<close> clears \<open>isLoading\<close>.
\<close>

definition startSorting ::
  "string \<times> int \<Rightarrow> (nat \<Rightarrow> int) \<Rightarrow> SortingStore \<Rightarrow> error option \<times> SortingStore" where
  "startSorting env clk st =
     (if \<not> canStart st then (Some StateConflictError, st)
      else (let st1 = st\<lparr>isLoading := True, errorMessage := None\<rparr>
            in case fst (sort_steps (create clk (selectedAlgorithm st1) (originalData st1))) of
                 Inl e \<Rightarrow> (Some e, st1\<lparr>errorMessage := Some e, isLoading := False\<rparr>)
               | Inr sortingSteps \<Rightarrow>
                   (let st2 = st1\<lparr>steps_s := sortingSteps, currentStep := 0,
                                  currentData := originalData st1, playerState := Playing\<rparr>;
                        st3 = saveSnapshot env (StartSorting (selectedAlgorithm st2)) st2
                    in (None, st3\<lparr>isLoading := False\<rparr>))))"

definition pausePlayback :: "string \<times> int \<Rightarrow> SortingStore \<Rightarrow> SortingStore" where
  "pausePlayback env st =
     (if playerState st = Playing
      then saveSnapshot env (PausePlayback (currentStep st + 1)) (st\<lparr>playerState := Paused\<rparr>)
      else st)"

definition resumePlayback :: "string \<times> int \<Rightarrow> SortingStore \<Rightarrow> SortingStore" where
  "resumePlayback env st =
     (if playerState st = Paused
      then saveSnapshot env (ResumePlayback (currentStep st + 1)) (st\<lparr>playerState := Playing\<rparr>)
      else st)"

definition stopPlayback :: "string \<times> int \<Rightarrow> SortingStore \<Rightarrow> SortingStore" where
  "stopPlayback env st =
     saveSnapshot env StopPlayback
       (st\<lparr>playerState := Idle, currentStep := 0, currentData := originalData st\<rparr>)"

definition jumpToStep_s :: "string \<times> int \<Rightarrow> int \<Rightarrow> SortingStore \<Rightarrow> error option \<times> SortingStore" where
  "jumpToStep_s env stepIndex st =
     (if \<not> canNavigate st then (Some StateConflictError, st)
      else if stepIndex < 0 \<or> stepIndex \<ge> totalSteps st then (Some IndexOutOfRange, st)
      else (let st1 = st\<lparr>currentStep := stepIndex\<rparr>;
                st2 = st1\<lparr>currentData := data (arrayState (steps_s st1 ! nat stepIndex))\<rparr>
            in (None, saveSnapshot env (JumpStep (stepIndex + 1)) st2)))"

definition nextStep_s :: "string \<times> int \<Rightarrow> SortingStore \<Rightarrow> error option \<times> SortingStore" where
  "nextStep_s env st =
     (if currentStep st < totalSteps st - 1 then jumpToStep_s env (currentStep st + 1) st
      else (None, st))"

definition previousStep_s :: "string \<times> int \<Rightarrow> SortingStore \<Rightarrow> error option \<times> SortingStore" where
  "previousStep_s env st =
     (if currentStep st > 0 then jumpToStep_s env (currentStep st - 1) st else (None, st))"

definition updatePlaybackSpeed :: "string \<times> int \<Rightarrow> number \<Rightarrow> SortingStore \<Rightarrow> SortingStore" where
  "updatePlaybackSpeed env speed st =
     (let st1 = st\<lparr>playbackSpeed_s := js_max (Num 0.1) (js_min (Num 5.0) speed)\<rparr>;
          st2 = st1\<lparr>config_playbackSpeed := playbackSpeed_s st1\<rparr>
      in saveSnapshot env (AdjustSpeed (playbackSpeed_s st2)) st2)"

section \<open>Predicates used in the proofs\<close>

text \<open>
  Predicates on arrays for the loop invariants. \<open>ge_above m xs\<close>: every element at a
  position above \<open>m\<close> is at least every element before it. \<open>max_at j xs\<close>: the element
  at \<open>j\<close> is a maximum of the positions up to \<open>j\<close>. \<open>asc_upto j xs\<close>: neighbours are
  in order up to position \<open>j\<close>.
\<close>

definition ge_above :: "nat \<Rightarrow> int list \<Rightarrow> bool" where
  "ge_above m xs \<longleftrightarrow> (\<forall>a b. a < b \<and> m < b \<and> b < length xs \<longrightarrow> xs ! a \<le> xs ! b)"

definition max_at :: "nat \<Rightarrow> int list \<Rightarrow> bool" where
  "max_at j xs \<longleftrightarrow> (\<forall>k<j. xs ! k \<le> xs ! j)"

definition asc_upto :: "nat \<Rightarrow> int list \<Rightarrow> bool" where
  "asc_upto j xs \<longleftrightarrow> (\<forall>k<j. xs ! k \<le> xs ! (k + 1))"

text \<open>
  \<open>min_from i j m xs\<close>: \<open>m\<close> is the position of a minimum of the positions \<open>i..<j\<close>.
  \<open>le_below i xs\<close>: every element before \<open>i\<close> is at most every later element.
\<close>

definition min_from :: "nat \<Rightarrow> nat \<Rightarrow> nat \<Rightarrow> int list \<Rightarrow> bool" where
  "min_from i j m xs \<longleftrightarrow> i \<le> m \<and> m < j \<and> (\<forall>k. i \<le> k \<and> k < j \<longrightarrow> xs ! m \<le> xs ! k)"

definition le_below :: "nat \<Rightarrow> int list \<Rightarrow> bool" where
  "le_below i xs \<longleftrightarrow> (\<forall>a b. a < i \<and> a < b \<and> b < length xs \<longrightarrow> xs ! a \<le> xs ! b)"

text \<open>
  \<open>asc_below i xs\<close>: the first \<open>i\<close> elements are in order. \<open>hole_inv i key h xs\<close>: the
  state of the insertion search with the hole at \<open>h\<close>: the positions up to \<open>i\<close> other
  than \<open>h\<close> are in order and those after the hole are greater than the key.
\<close>

definition asc_below :: "nat \<Rightarrow> int list \<Rightarrow> bool" where
  "asc_below i xs \<longleftrightarrow> (\<forall>k l. k < l \<and> l < i \<longrightarrow> xs ! k \<le> xs ! l)"

definition hole_inv :: "nat \<Rightarrow> int \<Rightarrow> nat \<Rightarrow> int list \<Rightarrow> bool" where
  "hole_inv i key h xs \<longleftrightarrow>
     (\<forall>k l. k < l \<and> l \<le> i \<and> k \<noteq> h \<and> l \<noteq> h \<longrightarrow> xs ! k \<le> xs ! l) \<and>
     (\<forall>k. h < k \<and> k \<le> i \<longrightarrow> key < xs ! k)"

text \<open>
  Reading an identifier back: the value of a digit, of a digit string, and the counter
  that stands after the last underscore of a step identifier.
\<close>

definition digit_val :: "char \<Rightarrow> nat" where
  "digit_val c = (if (of_char c :: nat) < 58 then of_char c - 48 else of_char c - 87)"

definition str_val :: "nat \<Rightarrow> string \<Rightarrow> nat" where
  "str_val b s = foldl (\<lambda>a c. a * b + digit_val c) 0 s"

definition id_counter :: "string \<Rightarrow> nat" where
  "id_counter s = str_val 16 (rev (takeWhile (\<lambda>c. c \<noteq> CHR ''_'') (rev s)))"

text \<open>
  The invariant of the generator: both counters equal the number of steps pushed, and
  the \<open>k\<close>-th step carries sequence number \<open>k + 1\<close> and the identifier made from the
  counter value \<open>k + 1\<close>.
\<close>

definition gen_inv :: "SortingAlgorithm \<Rightarrow> bool" where
  "gen_inv alg \<longleftrightarrow>
     counter alg = length (steps alg) \<and> seqNumber alg = length (steps alg) \<and>
     (\<forall>k<length (steps alg).
        sequenceNumber (steps alg ! k) = k + 1 \<and>
        stepId (steps alg ! k) = make_stepId (algorithmType alg) (clock alg (k + 1)) (k + 1))"

subsection \<open>The player's index invariant and concrete inputs\<close>

text \<open>
  \<open>idx_inv\<close>: steps are loaded and the current index refers to one of them.
  \<open>mockStep\<close> is the step the repository's tests use as a fixture; \<open>demo_player\<close> is a
  new player (default configuration, loop mode as given) with three such steps loaded.
  \<open>playing_store\<close> is a store in the middle of a playback, set up as the repository's
  store tests do, by assigning the exposed refs. \<open>full_store\<close> holds 100 snapshots.
\<close>

definition idx_inv :: "SortingPlayer \<Rightarrow> bool" where
  "idx_inv p \<longleftrightarrow> steps_p p \<noteq> [] \<and> 0 \<le> currentStepIndex p \<and>
     currentStepIndex p \<le> int (length (steps_p p)) - 1"

definition mockStep :: AlgorithmStep where
  "mockStep =
     \<lparr>stepId = ''TEST_STEP_001'', sequenceNumber = 1,
      arrayState = \<lparr>data = [5, 2, 8, 1, 9], highlightedIndices = [1, 2],
                    comparisonPair = Some (1, 2), swapPair = None, sortedRegions = []\<rparr>,
      operation = \<lparr>op_type = Compare, description = CompareElements 2 8,
                   complexity = \<lparr>time = O_1, space = O_1\<rparr>\<rparr>,
      visualHints = \<lparr>animationType = Highlight, duration = 300,
                     colors = \<lparr>comparing = ''#f59e0b'', swapping = ''#ef4444'',
                               sorted_color = ''#10b981''\<rparr>\<rparr>\<rparr>"

definition demo_player :: "bool \<Rightarrow> SortingPlayer" where
  "demo_player loop =
     snd (loadSteps (Some [mockStep, mockStep, mockStep])
            (new_player (defaultPlayerConfig\<lparr>loopMode := loop\<rparr>)))"

definition playing_store :: SortingStore where
  "playing_store = initial_store\<lparr>steps_s := [mockStep, mockStep, mockStep], currentStep := 1,
                                 playerState := Playing\<rparr>"

definition demo_snapshot :: TimelineSnapshot where
  "demo_snapshot =
     \<lparr>snap_id = ''snapshot-1'', timestamp = 1, snap_description = StopPlayback,
      snap_state = \<lparr>s_currentData = [64, 34, 25, 12, 22, 11, 90], s_currentStep = 0,
                    s_playerState = Idle, s_selectedAlgorithm = Bubble_sort, s_steps = []\<rparr>\<rparr>"

definition full_store :: SortingStore where
  "full_store = importTimeline (replicate 100 demo_snapshot) initial_store"

text \<open>
  An advance is a call of \<open>nextStep\<close>, or the timeout of \<open>scheduleNextStep\<close> firing
  (a pending timeout fires when none is due before it). \<open>ran_to_end es p\<close>: in the run
  of the events \<open>es\<close> from \<open>p\<close>, some advance was taken at the last index.
\<close>

definition advance_event :: "Event \<Rightarrow> SortingPlayer \<Rightarrow> bool" where
  "advance_event e p =
     (case e of
        Invoke c \<Rightarrow> c = CNextStep
      | Wait d \<Rightarrow> False
      | Fire h \<Rightarrow>
          (case find (\<lambda>t. handle t = h) (timers p) of
             None \<Rightarrow> False
           | Some t \<Rightarrow> kind t = Advance \<and> list_all (\<lambda>u. due t \<le> due u) (timers p)))"

fun ran_to_end :: "Event list \<Rightarrow> SortingPlayer \<Rightarrow> bool" where
  "ran_to_end [] p = False"
| "ran_to_end (e # es) p =
     ((advance_event e p \<and> currentStepIndex p = int (length (steps_p p)) - 1) \<or>
      ran_to_end es (exec e p))"

text \<open>
  \<open>single_advance\<close>: loop mode is off, a playing player has exactly one pending
  timeout, the advance whose handle \<open>playTimer\<close> holds, and any other player has none.
  \<open>plain_event\<close>: every event but a call of \<open>reset\<close>, \<open>setLoopMode\<close> or \<open>loadSteps\<close>.
\<close>

definition single_advance :: "SortingPlayer \<Rightarrow> bool" where
  "single_advance p \<longleftrightarrow>
     \<not> loopMode (config p) \<and>
     (state p = Playing \<longrightarrow>
        (\<exists>t. timers p = [t] \<and> kind t = Advance \<and> playTimer p = Some (handle t))) \<and>
     (state p \<noteq> Playing \<longrightarrow> timers p = [])"

fun plain_event :: "Event \<Rightarrow> bool" where
  "plain_event (Invoke CReset) = False"
| "plain_event (Invoke (CSetLoopMode b)) = False"
| "plain_event (Invoke (CLoadSteps arg)) = False"
| "plain_event e = True"

section \<open>The generator sorts, numbers its steps and names them apart\<close>

lemma steps_push_step:
  "steps (push_step a opn alg) =
     steps alg @ [\<lparr>stepId = make_stepId (algorithmType alg) (clock alg (counter alg + 1)) (counter alg + 1),
                    sequenceNumber = seqNumber alg + 1, arrayState = a, operation = opn,
                    visualHints = getVisualHints (op_type opn)\<rparr>]"
  by (simp add: push_step_def createStep_def Let_def)

lemma push_step_fields [simp]:
  "counter (push_step a opn alg) = counter alg + 1"
  "seqNumber (push_step a opn alg) = seqNumber alg + 1"
  "algorithmType (push_step a opn alg) = algorithmType alg"
  "clock (push_step a opn alg) = clock alg"
  "inputData (push_step a opn alg) = inputData alg"
  by (simp_all add: push_step_def createStep_def Let_def)

lemma swap_adjacent_ge_above:
  assumes "ge_above m xs" "j + 1 \<le> m" "m < length xs"
  shows "ge_above m (xs[j := xs ! (j + 1), j + 1 := xs ! j])"
  using assms unfolding ge_above_def
  by (auto simp: nth_list_update)

lemma swap_adjacent_max_at:
  assumes "max_at j xs" "xs ! (j + 1) < xs ! j" "j + 1 < length xs"
  shows "max_at (j + 1) (xs[j := xs ! (j + 1), j + 1 := xs ! j])"
  using assms unfolding max_at_def
  by (auto simp: nth_list_update less_Suc_eq)

lemma keep_max_at:
  assumes "max_at j xs" "xs ! j \<le> xs ! (j + 1)"
  shows "max_at (j + 1) xs"
  using assms unfolding max_at_def
  by (auto simp: less_Suc_eq intro: order_trans)

lemma keep_asc_upto:
  assumes "asc_upto j xs" "xs ! j \<le> xs ! (j + 1)"
  shows "asc_upto (j + 1) xs"
  using assms unfolding asc_upto_def
  by (auto simp: less_Suc_eq)

lemma bubble_inner_data:
  assumes "length dat = n" "i < n - 1" "j \<le> n - i - 1" "ge_above (n - i - 1) dat"
    "max_at j dat" "\<not> sw \<longrightarrow> asc_upto j dat"
  shows "case bubble_inner n i j dat sw alg of
           (d, s, alg') \<Rightarrow> length d = n \<and> mset d = mset dat \<and> ge_above (n - i - 1) d \<and>
                       max_at (n - i - 1) d \<and> (\<not> s \<longrightarrow> asc_upto (n - i - 1) d)"
  using assms
proof (induction n i j dat sw alg rule: bubble_inner.induct)
  case (1 n i j dat hasSwapped alg)
  show ?case
  proof (cases "j < n - i - 1")
    case False
    with "1.prems" have "j = n - i - 1" by simp
    with False "1.prems" show ?thesis
      by (simp add: bubble_inner.simps)
  next
    case True
    note lt = True
    show ?thesis
    proof (cases "dat ! j > dat ! (j + 1)")
      case True
      let ?d2 = "dat[j := dat ! (j + 1), j + 1 := dat ! j]"
      have len: "length ?d2 = n" using "1.prems" by simp
      have ms: "mset ?d2 = mset dat"
        using lt "1.prems" by (intro mset_swap) auto
      have ga: "ge_above (n - i - 1) ?d2"
        using lt "1.prems" by (intro swap_adjacent_ge_above) auto
      have ma: "max_at (j + 1) ?d2"
        using lt True "1.prems" by (intro swap_adjacent_max_at) auto
      have "case bubble_inner n i (j + 1) ?d2 True
              (push_step \<lparr>data = dat, highlightedIndices = [j, j + 1], comparisonPair = None,
                      swapPair = Some (j, j + 1), sortedRegions = bubble_regions n i\<rparr>
                     (op_info Swap (SwapElements (dat ! j) (dat ! (j + 1))) O_1)
                (push_step
               \<lparr>data = dat, highlightedIndices = [j, j + 1], comparisonPair = Some (j, j + 1),
                swapPair = None, sortedRegions = bubble_regions n i\<rparr>
               (op_info Compare (CompareElements (dat ! j) (dat ! (j + 1))) O_1) alg)) of
           (d, s, alg') \<Rightarrow> length d = n \<and> mset d = mset ?d2 \<and> ge_above (n - i - 1) d \<and>
                       max_at (n - i - 1) d \<and> (\<not> s \<longrightarrow> asc_upto (n - i - 1) d)"
        using lt True len ga ma "1.prems"(2)
        by (intro "1.IH"(1)) (auto simp: Let_def)
      with ms lt True show ?thesis
        by (subst bubble_inner.simps) (simp add: Let_def)
    next
      case False
      have ma: "max_at (j + 1) dat"
        using False "1.prems" by (intro keep_max_at) auto
      have au: "\<not> hasSwapped \<longrightarrow> asc_upto (j + 1) dat"
        using False "1.prems" by (auto simp: asc_upto_def less_Suc_eq)
      have "case bubble_inner n i (j + 1) dat hasSwapped
                (push_step
               \<lparr>data = dat, highlightedIndices = [j, j + 1], comparisonPair = Some (j, j + 1),
                swapPair = None, sortedRegions = bubble_regions n i\<rparr>
               (op_info Compare (CompareElements (dat ! j) (dat ! (j + 1))) O_1) alg) of
           (d, s, alg') \<Rightarrow> length d = n \<and> mset d = mset dat \<and> ge_above (n - i - 1) d \<and>
                       max_at (n - i - 1) d \<and> (\<not> s \<longrightarrow> asc_upto (n - i - 1) d)"
        using lt False ma au "1.prems"
        by (intro "1.IH"(2)) (auto simp: Let_def)
      with lt False show ?thesis
        by (subst bubble_inner.simps) (simp add: Let_def)
    qed
  qed
qed

lemma bubble_outer_data:
  assumes "length dat = n" "ge_above (n - i - 1) dat"
  shows "case bubble_outer n i dat alg of (d, alg') \<Rightarrow> sorted d \<and> mset d = mset dat"
  using assms
proof (induction n i dat alg rule: bubble_outer.induct)
  case (1 n i dat alg)
  show ?case
  proof (cases "i < n - 1")
    case False
    then have "n - i - 1 = 0" by simp
    with "1.prems" have "sorted dat"
      by (auto simp: sorted_iff_nth_mono_less ge_above_def)
    with False show ?thesis
      by (subst bubble_outer.simps) simp
  next
    case True
    obtain d1 sw alg1 where inner: "bubble_inner n i 0 dat False alg = (d1, sw, alg1)"
      by (cases "bubble_inner n i 0 dat False alg") auto
    have "case bubble_inner n i 0 dat False alg of
           (d, s, alg') \<Rightarrow> length d = n \<and> mset d = mset dat \<and> ge_above (n - i - 1) d \<and>
                       max_at (n - i - 1) d \<and> (\<not> s \<longrightarrow> asc_upto (n - i - 1) d)"
      using True "1.prems" by (intro bubble_inner_data) (auto simp: max_at_def asc_upto_def)
    with inner have d1: "length d1 = n" "mset d1 = mset dat" "ge_above (n - i - 1) d1"
      "max_at (n - i - 1) d1" "\<not> sw \<longrightarrow> asc_upto (n - i - 1) d1"
      by auto
    show ?thesis
    proof (cases sw)
      case False
      have "sorted d1"
        unfolding sorted_iff_nth_Suc
      proof (intro allI impI)
        fix k assume k: "Suc k < length d1"
        show "d1 ! k \<le> d1 ! Suc k"
        proof (cases "k < n - i - 1")
          case True
          with d1(5) False show ?thesis by (auto simp: asc_upto_def)
        next
          case False
          with d1(3) k show ?thesis by (auto simp: ge_above_def)
        qed
      qed
      with False True inner d1 show ?thesis
        by (subst bubble_outer.simps) (simp add: Let_def)
    next
      case sw: True
      have ga: "ge_above (n - (i + 1) - 1) d1"
        unfolding ge_above_def
      proof (intro allI impI)
        fix a b assume ab: "a < b \<and> n - (i + 1) - 1 < b \<and> b < length d1"
        show "d1 ! a \<le> d1 ! b"
        proof (cases "b = n - i - 1")
          case True
          with d1(4) ab show ?thesis by (auto simp: max_at_def)
        next
          case False
          with ab True have "n - i - 1 < b" by linarith
          with d1(3) ab show ?thesis by (auto simp: ge_above_def)
        qed
      qed
      let ?alg2 = "push_step
                    \<lparr>data = d1, highlightedIndices = [n - i - 1], comparisonPair = None,
                     swapPair = None, sortedRegions = [\<lparr>rstart = n - i - 1, rend = n - 1\<rparr>]\<rparr>
                    (op_info Compare (RoundDone (i + 1) (d1 ! (n - i - 1))) O_n) alg1"
      have "case bubble_outer n (i + 1) d1 ?alg2 of (d, alg') \<Rightarrow> sorted d \<and> mset d = mset d1"
        using True inner sw d1(1) ga
        by (intro "1.IH"[OF True inner[symmetric] refl refl]) auto
      with sw True inner d1 show ?thesis
        by (subst bubble_outer.simps) (simp add: Let_def split: prod.splits)
    qed
  qed
qed

lemma selection_inner_min:
  assumes "min_from i j m dat" "j \<le> n"
  shows "case selection_inner n i j m dat alg of (m', alg') \<Rightarrow> min_from i n m' dat"
  using assms
proof (induction n i j m dat alg rule: selection_inner.induct)
  case (1 n i j minIndex dat alg)
  show ?case
  proof (cases "j < n")
    case False
    with "1.prems" show ?thesis
      by (subst selection_inner.simps) simp
  next
    case True
    note lt = True
    let ?alg1 = "push_step
               \<lparr>data = dat, highlightedIndices = [minIndex, j],
                comparisonPair = Some (minIndex, j), swapPair = None,
                sortedRegions = selection_regions i\<rparr>
               (op_info Compare (CompareMinCandidate (dat ! minIndex) (dat ! j)) O_1) alg"
    show ?thesis
    proof (cases "dat ! j < dat ! minIndex")
      case True
      have mf: "min_from i (j + 1) j dat"
        using True "1.prems" unfolding min_from_def
        by (auto simp: less_Suc_eq)
      let ?alg2 = "push_step
                     \<lparr>data = dat, highlightedIndices = [j], comparisonPair = None,
                      swapPair = None, sortedRegions = selection_regions i\<rparr>
                     (op_info Compare (NewMinimum (dat ! j)) O_1) ?alg1"
      have "case selection_inner n i (j + 1) j dat ?alg2 of (m', alg') \<Rightarrow> min_from i n m' dat"
        using lt mf by (intro "1.IH"(1)[OF lt refl True refl refl]) auto
      with lt True show ?thesis
        by (subst selection_inner.simps) (simp add: Let_def)
    next
      case False
      have mf: "min_from i (j + 1) minIndex dat"
        using False "1.prems" unfolding min_from_def
        by (auto simp: less_Suc_eq)
      have "case selection_inner n i (j + 1) minIndex dat ?alg1 of (m', alg') \<Rightarrow> min_from i n m' dat"
        using lt mf by (intro "1.IH"(2)[OF lt refl False]) auto
      with lt False show ?thesis
        by (subst selection_inner.simps) (simp add: Let_def)
    qed
  qed
qed

lemma selection_swap_le_below:
  assumes "le_below i xs" "min_from i (length xs) m xs"
  shows "le_below (i + 1) (xs[i := xs ! m, m := xs ! i])"
  unfolding le_below_def
proof (intro allI impI)
  fix a b
  assume ab: "a < i + 1 \<and> a < b \<and> b < length (xs[i := xs ! m, m := xs ! i])"
  from assms(2) have m: "i \<le> m" "m < length xs" "\<And>k. i \<le> k \<Longrightarrow> k < length xs \<Longrightarrow> xs ! m \<le> xs ! k"
    by (auto simp: min_from_def)
  from assms(1) have lb: "\<And>a b. a < i \<Longrightarrow> a < b \<Longrightarrow> b < length xs \<Longrightarrow> xs ! a \<le> xs ! b"
    by (auto simp: le_below_def)
  show "xs[i := xs ! m, m := xs ! i] ! a \<le> xs[i := xs ! m, m := xs ! i] ! b"
  proof (cases "a < i")
    case True
    with ab m lb show ?thesis
      by (auto simp: nth_list_update)
  next
    case False
    with ab have "a = i" by simp
    with ab m show ?thesis
      by (auto simp: nth_list_update)
  qed
qed

lemma selection_keep_le_below:
  assumes "le_below i xs" "min_from i (length xs) i xs"
  shows "le_below (i + 1) xs"
  using assms unfolding le_below_def min_from_def
  by (auto simp: less_Suc_eq)

lemma selection_outer_data:
  assumes "length dat = n" "le_below i dat"
  shows "case selection_outer n i dat alg of (d, alg') \<Rightarrow> sorted d \<and> mset d = mset dat"
  using assms
proof (induction n i dat alg rule: selection_outer.induct)
  case (1 n i dat alg)
  show ?case
  proof (cases "i < n - 1")
    case False
    with "1.prems" have "sorted dat"
      by (auto simp: sorted_iff_nth_mono_less le_below_def)
    with False show ?thesis
      by (subst selection_outer.simps) simp
  next
    case True
    obtain m alg1 where inner: "selection_inner n i (i + 1) i dat alg = (m, alg1)"
      by (cases "selection_inner n i (i + 1) i dat alg") auto
    have "case selection_inner n i (i + 1) i dat alg of (m', alg') \<Rightarrow> min_from i n m' dat"
      using True by (intro selection_inner_min) (auto simp: min_from_def less_Suc_eq)
    with inner have mf: "min_from i n m dat" by simp
    let ?p = "(if m \<noteq> i
           then let alg' =
                      push_step
                       \<lparr>data = dat, highlightedIndices = [i, m],
                          comparisonPair = None, swapPair = Some (i, m),
                          sortedRegions = selection_regions i\<rparr>
                       (op_info Swap (SwapMinTo (dat ! m) i) O_1) alg1;
                    temp = dat ! i; d1 = dat[i := dat ! m];
                    d2 = d1[m := temp]
                in (d2, alg')
           else (dat, alg1))"
    obtain dat1 alg2 where p: "?p = (dat1, alg2)"
      by (cases ?p) auto
    have dat1: "dat1 = (if m \<noteq> i then dat[i := dat ! m, m := dat ! i] else dat)"
      using p by (auto simp: Let_def split: if_splits)
    have len: "length dat1 = n"
      using dat1 "1.prems" by simp
    have ms: "mset dat1 = mset dat"
      using dat1 mf "1.prems" True by (auto simp: min_from_def intro!: mset_swap)
    have lb: "le_below (i + 1) dat1"
      using dat1 mf "1.prems" selection_swap_le_below[of i dat m] selection_keep_le_below[of i dat]
      by auto
    have "case selection_outer n (i + 1) dat1
                  (push_step
                    \<lparr>data = dat1, highlightedIndices = [i],
                       comparisonPair = None, swapPair = None,
                       sortedRegions = [\<lparr>rstart = 0, rend = i\<rparr>]\<rparr>
                    (op_info Compare (PositionFixed i (dat1 ! i)) O_n) alg2) of
            (d, alg') \<Rightarrow> sorted d \<and> mset d = mset dat1"
      using len lb by (intro "1.IH"[OF True inner[symmetric] refl p[symmetric] refl]) auto
    with True inner p ms show ?thesis
      by (subst selection_outer.simps) (simp add: Let_def split: prod.splits)
  qed
qed

lemma shift_hole_inv:
  assumes "hole_inv i key (h + 1) xs" "key < xs ! h" "h + 1 \<le> i" "i < length xs"
  shows "hole_inv i key h (xs[h + 1 := xs ! h])"
  unfolding hole_inv_def
proof (intro conjI allI impI)
  fix k l
  assume kl: "k < l \<and> l \<le> i \<and> k \<noteq> h \<and> l \<noteq> h"
  from assms(1) have a: "\<And>k l. k < l \<Longrightarrow> l \<le> i \<Longrightarrow> k \<noteq> h + 1 \<Longrightarrow> l \<noteq> h + 1 \<Longrightarrow> xs ! k \<le> xs ! l"
    by (auto simp: hole_inv_def)
  show "xs[h + 1 := xs ! h] ! k \<le> xs[h + 1 := xs ! h] ! l"
  proof (cases "k = h + 1")
    case True
    with kl assms a[of h l] show ?thesis by (auto simp: nth_list_update)
  next
    case False
    note k = False
    show ?thesis
    proof (cases "l = h + 1")
      case True
      with kl assms k a[of k h] show ?thesis by (auto simp: nth_list_update)
    next
      case False
      with kl assms k a[of k l] show ?thesis by (auto simp: nth_list_update)
    qed
  qed
next
  fix k
  assume k: "h < k \<and> k \<le> i"
  from assms(1) have b: "\<And>k. h + 1 < k \<Longrightarrow> k \<le> i \<Longrightarrow> key < xs ! k"
    by (auto simp: hole_inv_def)
  show "key < xs[h + 1 := xs ! h] ! k"
  proof (cases "k = h + 1")
    case True
    with assms show ?thesis by simp
  next
    case False
    with k b[of k] show ?thesis by (auto simp: nth_list_update)
  qed
qed

lemma shift_mset:
  assumes "h + 1 < length xs"
  shows "mset (xs[h + 1 := xs ! h, h := key]) = mset (xs[h + 1 := key])"
proof -
  let ?e = "xs[h + 1 := key]"
  have "xs[h + 1 := xs ! h, h := key] = ?e[h + 1 := ?e ! h, h := ?e ! (h + 1)]"
    using assms by simp
  also have "mset \<dots> = mset ?e"
    using assms by (intro mset_swap) auto
  finally show ?thesis .
qed

lemma insertion_while_data:
  assumes "length dat = n" "i < n" "- 1 \<le> j" "j < int i" "hole_inv i key (nat (j + 1)) dat"
  shows "case insertion_while i key j dat alg of
           (j', d, alg') \<Rightarrow> length d = n \<and> - 1 \<le> j' \<and> j' < int i \<and>
              hole_inv i key (nat (j' + 1)) d \<and>
              mset (d[nat (j' + 1) := key]) = mset (dat[nat (j + 1) := key]) \<and>
              (j' \<ge> 0 \<longrightarrow> d ! nat j' \<le> key)"
  using assms
proof (induction i key j dat alg rule: insertion_while.induct)
  case (1 i key j dat alg)
  show ?case
  proof (cases "j \<ge> 0 \<and> dat ! nat j > key")
    case False
    with "1.prems" show ?thesis
      by (subst insertion_while.simps) auto
  next
    case True
    define h where "h = nat j"
    have h: "nat (j + 1) = h + 1" "nat (j - 1 + 1) = h" "h + 1 \<le> i" "key < dat ! h"
      using True "1.prems" by (auto simp: h_def)
    let ?alg1 = "push_step
               \<lparr>data = dat, highlightedIndices = [nat j, nat (j + 1)],
                comparisonPair = Some (nat j, nat (j + 1)), swapPair = None,
                sortedRegions = [\<lparr>rstart = 0, rend = i\<rparr>]\<rparr>
               (op_info Compare (CompareShift (dat ! nat j) key) O_1) alg"
    let ?dat1 = "dat[nat (j + 1) := dat ! nat j]"
    let ?alg2 = "push_step
               \<lparr>data = ?dat1, highlightedIndices = [nat (j + 1)], comparisonPair = None,
                swapPair = None, sortedRegions = [\<lparr>rstart = 0, rend = i\<rparr>]\<rparr>
               (op_info Insert (ShiftRight (?dat1 ! nat (j + 1))) O_1) ?alg1"
    have nj: "nat j = h" by (simp add: h_def)
    have "hole_inv i key (h + 1) dat"
      using "1.prems" h by simp
    then have "hole_inv i key h (dat[h + 1 := dat ! h])"
      using "1.prems" h by (intro shift_hole_inv) auto
    then have hi: "hole_inv i key (nat (j - 1 + 1)) ?dat1"
      by (simp only: h nj)
    have "mset (dat[h + 1 := dat ! h, h := key]) = mset (dat[h + 1 := key])"
      using "1.prems" h by (intro shift_mset) auto
    then have ms: "mset (?dat1[nat (j - 1 + 1) := key]) = mset (dat[nat (j + 1) := key])"
      by (simp only: h nj)
    have "case insertion_while i key (j - 1) ?dat1 ?alg2 of
           (j', d, alg') \<Rightarrow> length d = n \<and> - 1 \<le> j' \<and> j' < int i \<and>
              hole_inv i key (nat (j' + 1)) d \<and>
              mset (d[nat (j' + 1) := key]) = mset (?dat1[nat (j - 1 + 1) := key]) \<and>
              (j' \<ge> 0 \<longrightarrow> d ! nat j' \<le> key)"
      using True "1.prems" hi by (intro "1.IH"[OF True refl refl refl]) auto
    with True ms show ?thesis
      by (subst insertion_while.simps) (simp add: Let_def split: prod.splits)
  qed
qed

lemma place_key_asc_below:
  assumes "hole_inv i key h xs" "h \<le> i" "i < length xs" "h > 0 \<longrightarrow> xs ! (h - 1) \<le> key"
  shows "asc_below (i + 1) (xs[h := key])"
  unfolding asc_below_def
proof (intro allI impI)
  fix k l
  assume kl: "k < l \<and> l < i + 1"
  from assms(1) have a: "\<And>k l. k < l \<Longrightarrow> l \<le> i \<Longrightarrow> k \<noteq> h \<Longrightarrow> l \<noteq> h \<Longrightarrow> xs ! k \<le> xs ! l"
    and b: "\<And>k. h < k \<Longrightarrow> k \<le> i \<Longrightarrow> key < xs ! k"
    by (auto simp: hole_inv_def)
  show "xs[h := key] ! k \<le> xs[h := key] ! l"
  proof (cases "k = h")
    case True
    with kl assms b[of l] show ?thesis by (auto simp: nth_list_update)
  next
    case False
    note k = False
    show ?thesis
    proof (cases "l = h")
      case False
      with k kl assms a[of k l] show ?thesis by (auto simp: nth_list_update)
    next
      case True
      with kl have h0: "h > 0" "k \<le> h - 1" by auto
      have "xs ! k \<le> xs ! (h - 1)"
      proof (cases "k = h - 1")
        case True then show ?thesis by simp
      next
        case False
        with h0 assms(2) a[of k "h - 1"] show ?thesis by auto
      qed
      with h0 assms(4) have "xs ! k \<le> key" by auto
      with True k kl assms show ?thesis by (auto simp: nth_list_update)
    qed
  qed
qed

lemma insertion_outer_data:
  assumes "length dat = n" "asc_below i dat"
  shows "case insertion_outer n i dat alg of (d, alg') \<Rightarrow> sorted d \<and> mset d = mset dat"
  using assms
proof (induction n i dat alg rule: insertion_outer.induct)
  case (1 n i dat alg)
  show ?case
  proof (cases "i < n")
    case False
    with "1.prems" have "sorted dat"
      by (auto simp: sorted_iff_nth_mono_less asc_below_def)
    with False show ?thesis
      by (subst insertion_outer.simps) simp
  next
    case True
    let ?key = "dat ! i"
    let ?alg1 = "push_step
               \<lparr>data = dat, highlightedIndices = [i], comparisonPair = None,
                swapPair = None, sortedRegions = [\<lparr>rstart = 0, rend = i - 1\<rparr>]\<rparr>
               (op_info Compare (TakeOut ?key) O_1) alg"
    obtain j d1 alg2 where w: "insertion_while i ?key (int i - 1) dat ?alg1 = (j, d1, alg2)"
      by (cases "insertion_while i ?key (int i - 1) dat ?alg1") auto
    have h0: "hole_inv i ?key (nat (int i - 1 + 1)) dat"
      using "1.prems" by (auto simp: hole_inv_def asc_below_def)
    have "case insertion_while i ?key (int i - 1) dat ?alg1 of
           (j', d, alg') \<Rightarrow> length d = n \<and> - 1 \<le> j' \<and> j' < int i \<and>
              hole_inv i ?key (nat (j' + 1)) d \<and>
              mset (d[nat (j' + 1) := ?key]) = mset (dat[nat (int i - 1 + 1) := ?key]) \<and>
              (j' \<ge> 0 \<longrightarrow> d ! nat j' \<le> ?key)"
      using True "1.prems" h0 by (intro insertion_while_data) auto
    with w have r: "length d1 = n" "- 1 \<le> j" "j < int i" "hole_inv i ?key (nat (j + 1)) d1"
      "mset (d1[nat (j + 1) := ?key]) = mset dat" "j \<ge> 0 \<longrightarrow> d1 ! nat j \<le> ?key"
      by auto
    let ?dat2 = "d1[nat (j + 1) := ?key]"
    have "nat (j + 1) > 0 \<longrightarrow> d1 ! (nat (j + 1) - 1) \<le> ?key"
      using r(2,6) by (auto simp: nat_add_distrib)
    then have ab: "asc_below (i + 1) ?dat2"
      using r True by (intro place_key_asc_below) auto
    let ?alg3 = "push_step
                       \<lparr>data = ?dat2, highlightedIndices = [nat (j + 1)], comparisonPair = None,
                        swapPair = None, sortedRegions = [\<lparr>rstart = 0, rend = i\<rparr>]\<rparr>
                       (op_info Insert (InsertAt ?key (nat (j + 1))) O_1) alg2"
    let ?alg4 = "push_step
                       \<lparr>data = ?dat2, highlightedIndices = [], comparisonPair = None,
                        swapPair = None, sortedRegions = [\<lparr>rstart = 0, rend = i\<rparr>]\<rparr>
                       (op_info Compare (RoundSorted i (i + 1)) O_i) ?alg3"
    have "case insertion_outer n (i + 1) ?dat2 ?alg4 of (d, alg') \<Rightarrow> sorted d \<and> mset d = mset ?dat2"
      using r ab by (intro "1.IH"[OF True refl refl w[symmetric] refl refl refl refl]) auto
    with True w r show ?thesis
      by (subst insertion_outer.simps) (simp add: Let_def split: prod.splits)
  qed
qed

lemma digit_val_digit_chars:
  assumes "d < 36"
  shows "digit_val (digit_chars ! d) = d"
proof -
  have "d \<in> set [0..<36]" using assms by simp
  then show ?thesis
    unfolding digit_chars_def digit_val_def
    by (simp add: upt_rec) (elim disjE; simp)
qed

lemma digit_chars_no_underscore:
  assumes "d < 36"
  shows "digit_chars ! d \<noteq> CHR ''_''"
proof -
  have "CHR ''_'' \<notin> set digit_chars" by (simp add: digit_chars_def)
  moreover have "digit_chars ! d \<in> set digit_chars"
    using assms by (intro nth_mem) (simp add: digit_chars_def)
  ultimately show ?thesis by metis
qed

lemma str_val_snoc: "str_val b (s @ [c]) = str_val b s * b + digit_val c"
  by (simp add: str_val_def)

lemma str_val_toString_radix:
  assumes "2 \<le> b" "b \<le> 36"
  shows "str_val b (toString_radix b n) = n"
  using assms
proof (induction b n rule: toString_radix.induct)
  case (1 b n)
  show ?case
  proof (cases "n < b")
    case True
    with "1.prems" have "digit_val (digit_chars ! n) = n"
      by (intro digit_val_digit_chars) simp
    with True "1.prems" show ?thesis
      by (subst toString_radix.simps) (simp add: str_val_def)
  next
    case False
    have "n mod b < b" using "1.prems" by (intro mod_less_divisor) simp
    with "1.prems" have "n mod b < 36" by linarith
    then have "digit_val (digit_chars ! (n mod b)) = n mod b"
      by (rule digit_val_digit_chars)
    moreover have "str_val b (toString_radix b (n div b)) = n div b"
      using False "1.prems" by (intro "1.IH") auto
    ultimately show ?thesis
      using False "1.prems"
      by (subst toString_radix.simps) (simp add: str_val_snoc)
  qed
qed

lemma toString_radix_no_underscore:
  "CHR ''_'' \<notin> set (toString_radix b n)"
proof (induction b n rule: toString_radix.induct)
  case (1 b n)
  show ?case
  proof (cases "b < 2 \<or> 36 < b")
    case True
    then show ?thesis by (subst toString_radix.simps) simp
  next
    case False
    note b = False
    show ?thesis
    proof (cases "n < b")
      case True
      with b have "digit_chars ! n \<noteq> CHR ''_''"
        by (intro digit_chars_no_underscore) simp
      with True b show ?thesis
        by (subst toString_radix.simps) auto
    next
      case False
      have "n mod b < b" using b by (intro mod_less_divisor) simp
      with b have "n mod b < 36" by linarith
      then have "digit_chars ! (n mod b) \<noteq> CHR ''_''"
        by (rule digit_chars_no_underscore)
      moreover have "CHR ''_'' \<notin> set (toString_radix b (n div b))"
        using b False by (intro "1.IH") auto
      ultimately show ?thesis
        using b False by (subst toString_radix.simps) auto
    qed
  qed
qed

lemma str_val_zeros: "str_val b (replicate k CHR ''0'' @ s) = str_val b s"
proof -
  have "foldl (\<lambda>a c. a * b + digit_val c) 0 (replicate k CHR ''0'') = 0"
    by (induction k) (simp_all add: digit_val_def)
  then show ?thesis by (simp add: str_val_def)
qed

lemma id_counter_make_stepId: "id_counter (make_stepId t tm c) = c"
proof -
  let ?h = "padStart 4 CHR ''0'' (toString_radix 16 c)"
  have nu: "CHR ''_'' \<notin> set ?h"
    using toString_radix_no_underscore[of 16 c] by (auto simp: padStart_def)
  have "make_stepId t tm c = (id_prefix t @ ''_'' @ int_toString36 tm) @ CHR ''_'' # ?h"
    by (simp add: make_stepId_def)
  then have "rev (make_stepId t tm c) = rev ?h @ CHR ''_'' # rev (id_prefix t @ ''_'' @ int_toString36 tm)"
    by simp
  moreover have "takeWhile (\<lambda>c. c \<noteq> CHR ''_'') (rev ?h @ CHR ''_'' # rev (id_prefix t @ ''_'' @ int_toString36 tm)) = rev ?h"
    using nu by (intro takeWhile_tail[THEN trans[rotated]] takeWhile_append2[THEN trans]) auto
  ultimately have "id_counter (make_stepId t tm c) = str_val 16 ?h"
    by (simp add: id_counter_def)
  also have "\<dots> = c"
    by (simp add: padStart_def str_val_zeros str_val_toString_radix)
  finally show ?thesis .
qed

lemma gen_inv_create: "gen_inv (create clk t xs)"
  by (simp add: gen_inv_def create_def)

lemma gen_inv_push_step:
  assumes "gen_inv alg"
  shows "gen_inv (push_step a opn alg)"
  using assms
  by (auto simp: gen_inv_def steps_push_step nth_append less_Suc_eq)

lemma bubble_inner_inv:
  "gen_inv alg \<Longrightarrow> gen_inv (snd (snd (bubble_inner n i j dat sw alg)))"
proof (induction n i j dat sw alg rule: bubble_inner.induct)
  case (1 n i j dat hasSwapped alg)
  then show ?case
    by (subst bubble_inner.simps) (simp add: Let_def gen_inv_push_step)
qed

lemma bubble_outer_inv:
  "gen_inv alg \<Longrightarrow> gen_inv (snd (bubble_outer n i dat alg))"
proof (induction n i dat alg rule: bubble_outer.induct)
  case (1 n i dat alg)
  show ?case
  proof (cases "i < n - 1")
    case False
    with "1.prems" show ?thesis by (subst bubble_outer.simps) simp
  next
    case True
    obtain d1 sw alg1 where inner: "bubble_inner n i 0 dat False alg = (d1, sw, alg1)"
      by (cases "bubble_inner n i 0 dat False alg") auto
    have a1: "gen_inv alg1"
      using bubble_inner_inv[OF "1.prems", of n i 0 dat False] inner by simp
    then have a2: "gen_inv (push_step
                    \<lparr>data = d1, highlightedIndices = [n - i - 1], comparisonPair = None,
                     swapPair = None, sortedRegions = [\<lparr>rstart = n - i - 1, rend = n - 1\<rparr>]\<rparr>
                    (op_info Compare (RoundDone (i + 1) (d1 ! (n - i - 1))) O_n) alg1)"
      by (rule gen_inv_push_step)
    show ?thesis
    proof (cases sw)
      case False
      with True inner a2 show ?thesis
        by (subst bubble_outer.simps) (simp add: Let_def)
    next
      case sw: True
      from a2 sw have "gen_inv (snd (bubble_outer n (i + 1) d1 (push_step
                    \<lparr>data = d1, highlightedIndices = [n - i - 1], comparisonPair = None,
                     swapPair = None, sortedRegions = [\<lparr>rstart = n - i - 1, rend = n - 1\<rparr>]\<rparr>
                    (op_info Compare (RoundDone (i + 1) (d1 ! (n - i - 1))) O_n) alg1)))"
        by (intro "1.IH"[OF True inner[symmetric] refl refl]) auto
      with sw True inner show ?thesis
        by (subst bubble_outer.simps) (simp add: Let_def)
    qed
  qed
qed

lemma selection_inner_inv:
  "gen_inv alg \<Longrightarrow> gen_inv (snd (selection_inner n i j m dat alg))"
proof (induction n i j m dat alg rule: selection_inner.induct)
  case (1 n i j minIndex dat alg)
  then show ?case
    by (subst selection_inner.simps) (simp add: Let_def gen_inv_push_step)
qed

lemma selection_outer_inv:
  "gen_inv alg \<Longrightarrow> gen_inv (snd (selection_outer n i dat alg))"
proof (induction n i dat alg rule: selection_outer.induct)
  case (1 n i dat alg)
  show ?case
  proof (cases "i < n - 1")
    case False
    with "1.prems" show ?thesis by (subst selection_outer.simps) simp
  next
    case True
    obtain m alg1 where inner: "selection_inner n i (i + 1) i dat alg = (m, alg1)"
      by (cases "selection_inner n i (i + 1) i dat alg") auto
    have a1: "gen_inv alg1"
      using selection_inner_inv[OF "1.prems", of n i "i + 1" i dat] inner by simp
    let ?p = "(if m \<noteq> i
           then let alg' =
                      push_step
                       \<lparr>data = dat, highlightedIndices = [i, m],
                          comparisonPair = None, swapPair = Some (i, m),
                          sortedRegions = selection_regions i\<rparr>
                       (op_info Swap (SwapMinTo (dat ! m) i) O_1) alg1;
                    temp = dat ! i; d1 = dat[i := dat ! m];
                    d2 = d1[m := temp]
                in (d2, alg')
           else (dat, alg1))"
    obtain dat1 alg2 where p: "?p = (dat1, alg2)"
      by (cases ?p) auto
    have a2: "gen_inv alg2"
      using p a1 by (auto simp: Let_def gen_inv_push_step split: if_splits)
    have "gen_inv (snd (selection_outer n (i + 1) dat1
                  (push_step
                    \<lparr>data = dat1, highlightedIndices = [i],
                       comparisonPair = None, swapPair = None,
                       sortedRegions = [\<lparr>rstart = 0, rend = i\<rparr>]\<rparr>
                    (op_info Compare (PositionFixed i (dat1 ! i)) O_n) alg2)))"
      using a2 by (intro "1.IH"[OF True inner[symmetric] refl p[symmetric] refl] gen_inv_push_step)
    with True inner p show ?thesis
      by (subst selection_outer.simps) (simp add: Let_def split: prod.splits)
  qed
qed

lemma insertion_while_inv:
  "gen_inv alg \<Longrightarrow> gen_inv (snd (snd (insertion_while i key j dat alg)))"
proof (induction i key j dat alg rule: insertion_while.induct)
  case (1 i key j dat alg)
  then show ?case
    by (subst insertion_while.simps) (simp add: Let_def gen_inv_push_step)
qed

lemma insertion_outer_inv:
  "gen_inv alg \<Longrightarrow> gen_inv (snd (insertion_outer n i dat alg))"
proof (induction n i dat alg rule: insertion_outer.induct)
  case (1 n i dat alg)
  show ?case
  proof (cases "i < n")
    case False
    with "1.prems" show ?thesis by (subst insertion_outer.simps) simp
  next
    case True
    let ?key = "dat ! i"
    let ?alg1 = "push_step
               \<lparr>data = dat, highlightedIndices = [i], comparisonPair = None,
                swapPair = None, sortedRegions = [\<lparr>rstart = 0, rend = i - 1\<rparr>]\<rparr>
               (op_info Compare (TakeOut ?key) O_1) alg"
    obtain j d1 alg2 where w: "insertion_while i ?key (int i - 1) dat ?alg1 = (j, d1, alg2)"
      by (cases "insertion_while i ?key (int i - 1) dat ?alg1") auto
    have "gen_inv ?alg1" using "1.prems" by (rule gen_inv_push_step)
    from insertion_while_inv[OF this, of i ?key "int i - 1" dat] w
    have a2: "gen_inv alg2" by simp
    let ?dat2 = "d1[nat (j + 1) := ?key]"
    let ?alg3 = "push_step
                       \<lparr>data = ?dat2, highlightedIndices = [nat (j + 1)], comparisonPair = None,
                        swapPair = None, sortedRegions = [\<lparr>rstart = 0, rend = i\<rparr>]\<rparr>
                       (op_info Insert (InsertAt ?key (nat (j + 1))) O_1) alg2"
    let ?alg4 = "push_step
                       \<lparr>data = ?dat2, highlightedIndices = [], comparisonPair = None,
                        swapPair = None, sortedRegions = [\<lparr>rstart = 0, rend = i\<rparr>]\<rparr>
                       (op_info Compare (RoundSorted i (i + 1)) O_i) ?alg3"
    have "gen_inv (snd (insertion_outer n (i + 1) ?dat2 ?alg4))"
      using a2 by (intro "1.IH"[OF True refl refl w[symmetric] refl refl refl refl] gen_inv_push_step)
    with True w show ?thesis
      by (subst insertion_outer.simps) (simp add: Let_def split: prod.splits)
  qed
qed

lemma sort_steps_inv:
  assumes "gen_inv alg"
  shows "gen_inv (snd (sort_steps alg))"
proof (cases "algorithmType alg")
  case Bubble_sort
  with assms bubble_outer_inv[OF assms, of "length (inputData alg)" 0 "inputData alg"] show ?thesis
    by (auto simp: sort_steps_def BubbleSort_sort_def Let_def gen_inv_push_step split: prod.splits)
next
  case Selection_sort
  with assms selection_outer_inv[OF assms, of "length (inputData alg)" 0 "inputData alg"] show ?thesis
    by (auto simp: sort_steps_def SelectionSort_sort_def Let_def gen_inv_push_step split: prod.splits)
next
  case Insertion_sort
  with assms insertion_outer_inv[OF assms, of "length (inputData alg)" 1 "inputData alg"] show ?thesis
    by (auto simp: sort_steps_def InsertionSort_sort_def Let_def gen_inv_push_step split: prod.splits)
qed

lemma sort_steps_result:
  "fst (sort_steps alg) = (if inputData alg = [] then Inl InvalidInputError else Inr (steps (snd (sort_steps alg))))"
  by (cases "algorithmType alg")
     (auto simp: sort_steps_def BubbleSort_sort_def SelectionSort_sort_def InsertionSort_sort_def
        Let_def split: prod.splits)

lemma make_stepId_inj: "make_stepId t tm c = make_stepId t' tm2 c' \<Longrightarrow> c = c'"
  by (metis id_counter_make_stepId)

lemma gen_inv_sequence:
  assumes "gen_inv alg"
  shows "map sequenceNumber (steps alg) = [1..<length (steps alg) + 1]"
proof -
  have "map sequenceNumber (steps alg) = map Suc [0..<length (steps alg)]"
    using assms by (intro nth_equalityI) (auto simp: gen_inv_def)
  also have "\<dots> = [Suc 0..<Suc (length (steps alg))]" by (rule map_Suc_upt)
  finally show ?thesis by simp
qed

lemma gen_inv_distinct:
  assumes "gen_inv alg"
  shows "distinct (map stepId (steps alg))"
  unfolding distinct_conv_nth
proof (intro allI impI)
  fix a b
  assume "a < length (map stepId (steps alg))" "b < length (map stepId (steps alg))" "a \<noteq> b"
  with assms show "map stepId (steps alg) ! a \<noteq> map stepId (steps alg) ! b"
    by (auto simp: gen_inv_def dest!: make_stepId_inj)
qed

lemma last_push_step:
  "steps (push_step a opn alg) \<noteq> [] \<and> arrayState (last (steps (push_step a opn alg))) = a"
  by (simp add: steps_push_step)

lemma sort_steps_final:
  assumes "inputData alg \<noteq> []"
  shows "\<exists>ss. fst (sort_steps alg) = Inr ss \<and> ss \<noteq> [] \<and>
              sorted (data (arrayState (last ss))) \<and>
              mset (data (arrayState (last ss))) = mset (inputData alg)"
proof (cases "algorithmType alg")
  case Bubble_sort
  let ?n = "length (inputData alg)"
  obtain d1 alg1 where o: "bubble_outer ?n 0 (inputData alg) alg = (d1, alg1)"
    by (cases "bubble_outer ?n 0 (inputData alg) alg") auto
  have "case bubble_outer ?n 0 (inputData alg) alg of
          (d, alg') \<Rightarrow> sorted d \<and> mset d = mset (inputData alg)"
    by (intro bubble_outer_data) (auto simp: ge_above_def)
  with o have "sorted d1" "mset d1 = mset (inputData alg)" by auto
  with assms Bubble_sort o show ?thesis
    by (simp add: sort_steps_def BubbleSort_sort_def Let_def last_push_step)
next
  case Selection_sort
  let ?n = "length (inputData alg)"
  obtain d1 alg1 where o: "selection_outer ?n 0 (inputData alg) alg = (d1, alg1)"
    by (cases "selection_outer ?n 0 (inputData alg) alg") auto
  have "case selection_outer ?n 0 (inputData alg) alg of
          (d, alg') \<Rightarrow> sorted d \<and> mset d = mset (inputData alg)"
    by (intro selection_outer_data) (auto simp: le_below_def)
  with o have "sorted d1" "mset d1 = mset (inputData alg)" by auto
  with assms Selection_sort o show ?thesis
    by (simp add: sort_steps_def SelectionSort_sort_def Let_def last_push_step)
next
  case Insertion_sort
  let ?n = "length (inputData alg)"
  obtain d1 alg1 where o: "insertion_outer ?n 1 (inputData alg) alg = (d1, alg1)"
    by (cases "insertion_outer ?n 1 (inputData alg) alg") auto
  have "case insertion_outer ?n 1 (inputData alg) alg of
          (d, alg') \<Rightarrow> sorted d \<and> mset d = mset (inputData alg)"
    by (intro insertion_outer_data) (auto simp: asc_below_def)
  with o have "sorted d1" "mset d1 = mset (inputData alg)" by auto
  with assms Insertion_sort o show ?thesis
    by (simp add: sort_steps_def InsertionSort_sort_def Let_def last_push_step)
qed

lemma generateSteps_props:
  assumes "xs \<noteq> []"
  shows "\<exists>ss. generateSteps clk t xs = Inr ss \<and> ss \<noteq> [] \<and>
              sorted (data (arrayState (last ss))) \<and>
              mset (data (arrayState (last ss))) = mset xs \<and>
              data (arrayState (last ss)) = sort xs \<and>
              map sequenceNumber ss = [1..<length ss + 1] \<and> distinct (map stepId ss)"
proof -
  let ?alg = "snd (sort_steps (create clk t xs))"
  from sort_steps_final[of "create clk t xs"] assms
  obtain ss where ss: "generateSteps clk t xs = Inr ss" "ss \<noteq> []"
    "sorted (data (arrayState (last ss)))" "mset (data (arrayState (last ss))) = mset xs"
    by (auto simp: generateSteps_def create_def)
  have "gen_inv ?alg" by (intro sort_steps_inv gen_inv_create)
  moreover have "generateSteps clk t xs = Inr (steps ?alg)"
    using assms sort_steps_result[of "create clk t xs"]
    by (simp add: generateSteps_def create_def)
  ultimately have "map sequenceNumber ss = [1..<length ss + 1]" "distinct (map stepId ss)"
    using ss(1) gen_inv_sequence[of ?alg] gen_inv_distinct[of ?alg] by simp_all
  moreover have "data (arrayState (last ss)) = sort xs"
    using ss(3,4) by (metis properties_for_sort)
  ultimately show ?thesis using ss by blast
qed

text \<open>
  Claim C1. For each of the three algorithms and every non-empty integer input, the
  generator returns a step list, the list is not empty, and the data of its last step
  is in non-decreasing order and a permutation of the input: it is the ascending sort of
  the input.
\<close>

theorem C1_final_step_sorted:
  assumes "xs \<noteq> []"
  shows "\<exists>ss. generateSteps clk t xs = Inr ss \<and> ss \<noteq> [] \<and>
              sorted (data (arrayState (last ss))) \<and>
              mset (data (arrayState (last ss))) = mset xs \<and>
              data (arrayState (last ss)) = sort xs"
  using generateSteps_props[OF assms, of clk t] by blast

theorem C1_final_step_sorted_witness:
  "[3, 1, 2] \<noteq> ([] :: int list) \<and>
   (\<exists>ss. generateSteps (\<lambda>k. 0) Selection_sort [3, 1, 2] = Inr ss \<and> ss \<noteq> [] \<and>
         sorted (data (arrayState (last ss))) \<and>
         mset (data (arrayState (last ss))) = mset [3, 1, 2] \<and>
         data (arrayState (last ss)) = [1, 2, 3])"
  using C1_final_step_sorted[of "[3, 1, 2]" "\<lambda>k. 0" Selection_sort] by simp

text \<open>
  Claim C2. For every algorithm, sorting an empty input fails with the invalid-input
  error and pushes no step: the instance is left as it was, and a fresh instance
  therefore has no steps.
\<close>

theorem C2_empty_input_fails:
  assumes "inputData alg = []"
  shows "sort_steps alg = (Inl InvalidInputError, alg) \<and>
         generateSteps clk t [] = Inl InvalidInputError \<and>
         steps (snd (sort_steps (create clk t []))) = []"
  using assms
  by (cases "algorithmType alg"; cases t)
     (simp_all add: generateSteps_def create_def sort_steps_def BubbleSort_sort_def
        SelectionSort_sort_def InsertionSort_sort_def)

theorem C2_empty_input_fails_witness:
  "inputData (create (\<lambda>k. 0) Insertion_sort []) = [] \<and>
   sort_steps (create (\<lambda>k. 0) Insertion_sort []) =
     (Inl InvalidInputError, create (\<lambda>k. 0) Insertion_sort []) \<and>
   generateSteps (\<lambda>k. 0) Bubble_sort [] = Inl InvalidInputError \<and>
   steps (snd (sort_steps (create (\<lambda>k. 0) Bubble_sort []))) = []"
  using C2_empty_input_fails[of "create (\<lambda>k. 0) Insertion_sort []" "\<lambda>k. 0" Bubble_sort]
  by (simp add: create_def)

text \<open>
  Claim C3. For each algorithm, every non-empty input and whatever the clock reads, the
  sequence numbers of the generated steps are exactly \<open>1, 2, ..., N\<close> in this order
  (\<open>N\<close> the number of steps) and the step identifiers are pairwise distinct.
\<close>

theorem C3_sequence_numbers_and_ids:
  assumes "xs \<noteq> []"
  shows "\<exists>ss. generateSteps clk t xs = Inr ss \<and>
              map sequenceNumber ss = [1..<length ss + 1] \<and> distinct (map stepId ss)"
  using generateSteps_props[OF assms, of clk t] by blast

theorem C3_sequence_numbers_and_ids_witness:
  "[2, 1] \<noteq> ([] :: int list) \<and>
   (\<exists>ss. generateSteps (\<lambda>k. 1700000000000) Insertion_sort [2, 1] = Inr ss \<and>
         map sequenceNumber ss = [1..<length ss + 1] \<and> distinct (map stepId ss))"
  using C3_sequence_numbers_and_ids[of "[2, 1]" "\<lambda>k. 1700000000000" Insertion_sort] by simp

subsection \<open>The validators and the specification's scenarios\<close>

text \<open>
  The repository's own validators accept every generated sequence.
\<close>

theorem validators_accept_generated:
  assumes "xs \<noteq> []"
  shows "\<exists>ss. generateSteps clk t xs = Inr ss \<and> validateStepSequence ss \<and> validateSortResult xs ss"
proof -
  from generateSteps_props[OF assms, of clk t]
  obtain ss where ss: "generateSteps clk t xs = Inr ss" "ss \<noteq> []"
    "data (arrayState (last ss)) = sort xs"
    "map sequenceNumber ss = [1..<length ss + 1]" "distinct (map stepId ss)"
    by blast
  have "sequenceNumber (ss ! i) = i + 1" if "i < length ss" for i
  proof -
    have "map sequenceNumber ss ! i = [1..<length ss + 1] ! i" using ss(4) by simp
    moreover have "[1..<length ss + 1] ! i = 1 + i" using that by (intro nth_upt) simp
    ultimately show ?thesis using that by simp
  qed
  then have "list_all (\<lambda>i. sequenceNumber (ss ! i) = i + 1) [0..<length ss]"
    by (simp add: list_all_iff)
  moreover have "card (set (map stepId ss)) = length ss"
    using ss(5) distinct_card[of "map stepId ss"] by simp
  ultimately have "validateStepSequence ss"
    using ss(2) by (simp add: validateStepSequence_def)
  moreover have "validateSortResult xs ss"
    using ss(2,3) by (simp add: validateSortResult_def)
  ultimately show ?thesis using ss(1) by blast
qed

theorem validators_accept_generated_witness:
  "[5, 2, 8, 1] \<noteq> ([] :: int list) \<and>
   (\<exists>ss. generateSteps (\<lambda>k. 0) Bubble_sort [5, 2, 8, 1] = Inr ss \<and>
         validateStepSequence ss \<and> validateSortResult [5, 2, 8, 1] ss)"
  using validators_accept_generated[of "[5, 2, 8, 1]" "\<lambda>k. 0" Bubble_sort] by simp

text \<open>
  Scenario A of the specification: bubble sort on \<open>[64, 34, 25, 12, 22, 11, 90]\<close> ends
  with \<open>[11, 12, 22, 25, 34, 64, 90]\<close>. Scenario C: a single element gives exactly one
  step, the completion step, for each algorithm.
\<close>

theorem scenario_A_bubble:
  "\<exists>ss. generateSteps clk Bubble_sort [64, 34, 25, 12, 22, 11, 90] = Inr ss \<and> length ss > 0 \<and>
        data (arrayState (last ss)) = [11, 12, 22, 25, 34, 64, 90]"
proof -
  have "sort [64, 34, 25, 12, 22, 11, 90 :: int] = [11, 12, 22, 25, 34, 64, 90]"
    by simp
  with generateSteps_props[of "[64, 34, 25, 12, 22, 11, 90]" clk Bubble_sort]
  show ?thesis by auto
qed

theorem scenario_C_single_element:
  "\<exists>s. generateSteps clk t [42] = Inr [s] \<and> data (arrayState s) = [42] \<and>
       highlightedIndices (arrayState s) = [] \<and>
       sortedRegions (arrayState s) = [\<lparr>rstart = 0, rend = 0\<rparr>]"
  by (cases t)
     (simp_all add: generateSteps_def sort_steps_def create_def BubbleSort_sort_def
        SelectionSort_sort_def InsertionSort_sort_def bubble_outer.simps selection_outer.simps
        insertion_outer.simps steps_push_step Let_def)

section \<open>The player and the store\<close>

lemma setState_fields [simp]:
  "steps_p (setState s p) = steps_p p"
  "currentStepIndex (setState s p) = currentStepIndex p"
  "config (setState s p) = config p"
  "timers (setState s p) = timers p"
  "playTimer (setState s p) = playTimer p"
  "now (setState s p) = now p"
  "nextHandle (setState s p) = nextHandle p"
  "state (setState s p) = s"
  by (simp_all add: setState_def)

lemma clearTimer_fields [simp]:
  "steps_p (clearTimer p) = steps_p p"
  "currentStepIndex (clearTimer p) = currentStepIndex p"
  "config (clearTimer p) = config p"
  "state (clearTimer p) = state p"
  "now (clearTimer p) = now p"
  "nextHandle (clearTimer p) = nextHandle p"
  "playTimer (clearTimer p) = None"
  by (simp_all add: clearTimer_def clearTimeout_def split: option.splits)

lemma scheduleNextStep_fields [simp]:
  "steps_p (scheduleNextStep p) = steps_p p"
  "currentStepIndex (scheduleNextStep p) = currentStepIndex p"
  "config (scheduleNextStep p) = config p"
  "state (scheduleNextStep p) = state p"
  "now (scheduleNextStep p) = now p"
  by (simp_all add: scheduleNextStep_def setTimeout_def Let_def)

lemma reset_fields [simp]:
  "steps_p (reset p) = steps_p p"
  "currentStepIndex (reset p) = 0"
  "config (reset p) = config p"
  "state (reset p) = Idle"
  "timers (reset p) = timers p"
  "playTimer (reset p) = playTimer p"
  "now (reset p) = now p"
  "nextHandle (reset p) = nextHandle p"
  by (simp_all add: reset_def)

lemma play_fields [simp]:
  "steps_p (play p) = steps_p p"
  "config (play p) = config p"
  "state (play p) = Playing"
  "now (play p) = now p"
  "currentStepIndex (play p) =
     (if state p = Completed \<and> loopMode (config p) then 0 else currentStepIndex p)"
  by (simp_all add: play_def Let_def)

lemma pause_fields [simp]:
  "steps_p (pause p) = steps_p p"
  "currentStepIndex (pause p) = currentStepIndex p"
  "config (pause p) = config p"
  "now (pause p) = now p"
  "state (pause p) = (if state p = Playing then Paused else state p)"
  by (simp_all add: pause_def)

lemma stop_fields [simp]:
  "steps_p (stop p) = steps_p p"
  "currentStepIndex (stop p) = 0"
  "config (stop p) = config p"
  "state (stop p) = Idle"
  by (simp_all add: stop_def)

lemma complete_fields [simp]:
  "steps_p (complete p) = steps_p p"
  "currentStepIndex (complete p) = currentStepIndex p"
  "config (complete p) = config p"
  "state (complete p) = Completed"
  "now (complete p) = now p"
  by (simp_all add: complete_def setTimeout_def Let_def)

lemma nextStep_fields [simp]:
  "steps_p (nextStep p) = steps_p p"
  "config (nextStep p) = config p"
  "now (nextStep p) = now p"
  "currentStepIndex (nextStep p) =
     (if currentStepIndex p < int (length (steps_p p)) - 1 then currentStepIndex p + 1
      else currentStepIndex p)"
  "state (nextStep p) =
     (if currentStepIndex p < int (length (steps_p p)) - 1 then state p else Completed)"
  by (simp_all add: nextStep_def)

lemma previousStep_fields [simp]:
  "steps_p (previousStep p) = steps_p p"
  "config (previousStep p) = config p"
  "state (previousStep p) = state p"
  "timers (previousStep p) = timers p"
  "currentStepIndex (previousStep p) =
     (if currentStepIndex p > 0 then currentStepIndex p - 1 else currentStepIndex p)"
  by (simp_all add: previousStep_def)

lemma jumpToStep_fields [simp]:
  "steps_p (snd (jumpToStep i p)) = steps_p p"
  "config (snd (jumpToStep i p)) = config p"
  "state (snd (jumpToStep i p)) = state p"
  "timers (snd (jumpToStep i p)) = timers p"
  "currentStepIndex (snd (jumpToStep i p)) =
     (if i < 0 \<or> i \<ge> int (length (steps_p p)) then currentStepIndex p else i)"
  by (simp_all add: jumpToStep_def)

lemma setPlaybackSpeed_fields [simp]:
  "steps_p (snd (setPlaybackSpeed x p)) = steps_p p"
  "state (snd (setPlaybackSpeed x p)) = state p"
  "currentStepIndex (snd (setPlaybackSpeed x p)) = currentStepIndex p"
  by (simp_all add: setPlaybackSpeed_def Let_def)

lemma setLoopMode_fields [simp]:
  "steps_p (setLoopMode b p) = steps_p p"
  "state (setLoopMode b p) = state p"
  "currentStepIndex (setLoopMode b p) = currentStepIndex p"
  by (simp_all add: setLoopMode_def)

lemma loadSteps_idx_inv:
  assumes "idx_inv p \<or> (\<exists>ss. arg = Some ss \<and> ss \<noteq> [])"
  shows "arg = None \<or> arg = Some [] \<or> idx_inv (snd (loadSteps arg p))"
  using assms
  by (cases arg) (auto simp: loadSteps_def idx_inv_def Let_def)

lemma loadSteps_keeps_idx_inv:
  assumes "idx_inv p"
  shows "idx_inv (snd (loadSteps arg p))"
  using assms
  by (cases arg) (auto simp: loadSteps_def idx_inv_def Let_def)

lemma do_call_idx_inv:
  assumes "idx_inv p"
  shows "idx_inv (snd (do_call c p))"
proof (cases c)
  case (CLoadSteps arg)
  with assms loadSteps_keeps_idx_inv show ?thesis by (simp add: do_call_def)
qed (use assms in \<open>auto simp: do_call_def idx_inv_def\<close>)

lemma callback_idx_inv:
  assumes "idx_inv p"
  shows "idx_inv (callback k p)"
  using assms
  by (cases k) (auto simp: callback_def idx_inv_def Let_def)

lemma fire_idx_inv:
  assumes "idx_inv p"
  shows "idx_inv (fire h p)"
proof -
  have "idx_inv (p\<lparr>timers := ts, now := t\<rparr>)" for ts t
    using assms by (simp add: idx_inv_def)
  then show ?thesis
    using assms by (auto simp: fire_def intro!: callback_idx_inv split: option.splits)
qed

lemma exec_idx_inv:
  assumes "idx_inv p"
  shows "idx_inv (exec e p)"
proof (cases e)
  case (Invoke c)
  with assms do_call_idx_inv show ?thesis by (simp add: exec_def)
next
  case (Wait d)
  with assms show ?thesis by (simp add: exec_def idx_inv_def)
next
  case (Fire h)
  with assms fire_idx_inv show ?thesis by (simp add: exec_def)
qed

lemma run_idx_inv:
  assumes "idx_inv p"
  shows "idx_inv (run es p)"
  using assms unfolding run_def
  by (induction es arbitrary: p) (auto intro: exec_idx_inv)

lemma run_snoc: "run (es @ [e]) p = exec e (run es p)"
  by (simp add: run_def)

lemma exec_into_Completed:
  assumes "idx_inv p" "state p \<noteq> Completed" "state (exec e p) = Completed"
  shows "advance_event e p \<and>
         currentStepIndex p = int (length (steps_p p)) - 1 \<and>
         currentStepIndex (exec e p) = int (length (steps_p (exec e p))) - 1"
proof (cases e)
  case (Invoke c)
  show ?thesis
  proof (cases c)
    case (CLoadSteps arg)
    with Invoke assms show ?thesis
      by (cases arg) (auto simp: exec_def do_call_def loadSteps_def Let_def split: if_splits)
  qed (use Invoke assms in
        \<open>auto simp: exec_def do_call_def idx_inv_def advance_event_def split: if_splits\<close>)
next
  case (Wait d)
  with assms show ?thesis by (auto simp: exec_def split: if_splits)
next
  case (Fire h)
  show ?thesis
  proof (cases "find (\<lambda>t. handle t = h) (timers p)")
    case None
    with Fire assms show ?thesis by (simp add: exec_def fire_def)
  next
    case (Some t)
    show ?thesis
    proof (cases "kind t")
      case Advance
      with Fire Some assms show ?thesis
        by (auto simp: exec_def fire_def callback_def Let_def idx_inv_def advance_event_def
            split: if_splits)
    next
      case Restart
      with Fire Some assms show ?thesis
        by (auto simp: exec_def fire_def callback_def Let_def split: if_splits)
    qed
  qed
qed

lemma advance_at_end:
  assumes "advance_event e p" "currentStepIndex p = int (length (steps_p p)) - 1"
  shows "state (exec e p) = Completed \<and> currentStepIndex (exec e p) = currentStepIndex p"
proof (cases e)
  case (Invoke c)
  with assms show ?thesis
    by (simp add: advance_event_def exec_def do_call_def)
next
  case (Wait d)
  with assms show ?thesis by (simp add: advance_event_def)
next
  case (Fire h)
  with assms obtain t where t: "find (\<lambda>t. handle t = h) (timers p) = Some t"
    "kind t = Advance" "list_all (\<lambda>u. due t \<le> due u) (timers p)"
    by (auto simp: advance_event_def split: option.splits)
  with Fire assms(2) show ?thesis
    by (simp add: exec_def fire_def callback_def Let_def)
qed

lemma run_Cons: "run (e # es) p = run es (exec e p)"
  by (simp add: run_def)

lemma Completed_ran_to_end:
  assumes "idx_inv p" "state (run es p) = Completed"
  shows "state p = Completed \<or> ran_to_end es p"
  using assms
proof (induction es arbitrary: p)
  case Nil
  then show ?case by (simp add: run_def)
next
  case (Cons e es)
  have inv: "idx_inv (exec e p)"
    using Cons.prems(1) by (rule exec_idx_inv)
  from Cons.prems(2) have "state (run es (exec e p)) = Completed"
    by (simp add: run_Cons)
  from Cons.IH[OF inv this] consider "state (exec e p) = Completed" | "ran_to_end es (exec e p)"
    by blast
  then show ?case
  proof cases
    case 1
    show ?thesis
    proof (cases "state p = Completed")
      case True
      then show ?thesis by simp
    next
      case False
      from exec_into_Completed[OF Cons.prems(1) False 1] show ?thesis by simp
    qed
  next
    case 2
    then show ?thesis by simp
  qed
qed

lemma loadSteps_not_Completed:
  assumes "ss \<noteq> []"
  shows "state (snd (loadSteps (Some ss) q)) \<noteq> Completed"
  using assms by (simp add: loadSteps_def Let_def)

text \<open>
  Claim C4, as amended. For a player loaded with a non-empty step list, after any finite
  sequence of events (calls of play, pause, stop, reset, nextStep, previousStep,
  jumpToStep, setPlaybackSpeed, setLoopMode and loadSteps, the passing of time, and
  timeouts firing) the current index lies in \<open>[0, len - 1]\<close>. Every advance taken at
  the last index, a call of \<open>nextStep\<close> or the timeout firing, makes the state
  \<open>Completed\<close> and leaves the index there. The state becomes \<open>Completed\<close> in no other
  way, so a player that is \<open>Completed\<close> has run to the end: some advance of the run was
  taken at the last index. \<open>previousStep\<close> and \<open>jumpToStep\<close> never change the state,
  so \<open>Completed\<close> is kept when they move the index away from the end.
\<close>

theorem C4_playback_invariant:
  assumes "ss \<noteq> []"
  shows "(let p = run es (snd (loadSteps (Some ss) q)) in
            0 \<le> currentStepIndex p \<and> currentStepIndex p \<le> int (length (steps_p p)) - 1 \<and>
            (\<forall>e. advance_event e p \<and> currentStepIndex p = int (length (steps_p p)) - 1 \<longrightarrow>
                   state (exec e p) = Completed \<and>
                   currentStepIndex (exec e p) = int (length (steps_p (exec e p))) - 1) \<and>
            (\<forall>e. state p \<noteq> Completed \<and> state (exec e p) = Completed \<longrightarrow>
                   advance_event e p \<and>
                   currentStepIndex p = int (length (steps_p p)) - 1 \<and>
                   currentStepIndex (exec e p) = int (length (steps_p (exec e p))) - 1) \<and>
            (state p = Completed \<longrightarrow> ran_to_end es (snd (loadSteps (Some ss) q))) \<and>
            state (previousStep p) = state p \<and>
            (\<forall>i. state (snd (jumpToStep i p)) = state p))"
proof -
  let ?start = "snd (loadSteps (Some ss) q)"
  let ?p = "run es ?start"
  have inv0: "idx_inv ?start"
    using loadSteps_idx_inv[of q "Some ss"] assms by auto
  then have inv: "idx_inv ?p"
    by (rule run_idx_inv)
  then have a: "0 \<le> currentStepIndex ?p \<and> currentStepIndex ?p \<le> int (length (steps_p ?p)) - 1"
    by (simp add: idx_inv_def)
  have b: "state (exec e ?p) = Completed \<and>
           currentStepIndex (exec e ?p) = int (length (steps_p (exec e ?p))) - 1"
    if "advance_event e ?p \<and> currentStepIndex ?p = int (length (steps_p ?p)) - 1" for e
  proof -
    from that have adv: "advance_event e ?p"
      and last: "currentStepIndex ?p = int (length (steps_p ?p)) - 1"
      by simp_all
    have "idx_inv (exec e ?p)"
      using inv by (rule exec_idx_inv)
    moreover have "length (steps_p (exec e ?p)) = length (steps_p ?p)"
    proof (cases e)
      case (Invoke c)
      with adv show ?thesis by (simp add: advance_event_def exec_def do_call_def)
    next
      case (Wait d)
      with adv show ?thesis by (simp add: advance_event_def)
    next
      case (Fire h)
      with adv show ?thesis
        by (auto simp: advance_event_def exec_def fire_def callback_def Let_def
            split: option.splits)
    qed
    ultimately show ?thesis
      using advance_at_end[OF adv last] last by simp
  qed
  have c: "advance_event e ?p \<and>
           currentStepIndex ?p = int (length (steps_p ?p)) - 1 \<and>
           currentStepIndex (exec e ?p) = int (length (steps_p (exec e ?p))) - 1"
    if "state ?p \<noteq> Completed \<and> state (exec e ?p) = Completed" for e
    using exec_into_Completed[OF inv] that by blast
  have d: "ran_to_end es ?start" if "state ?p = Completed"
    using Completed_ran_to_end[OF inv0 that] loadSteps_not_Completed[OF assms] by blast
  have e: "state (previousStep ?p) = state ?p" by simp
  have f: "\<forall>i. state (snd (jumpToStep i ?p)) = state ?p" by simp
  show ?thesis
    unfolding Let_def
  proof (intro conjI allI impI)
    show "0 \<le> currentStepIndex ?p" using a by simp
    show "currentStepIndex ?p \<le> int (length (steps_p ?p)) - 1" using a by simp
    show "state (previousStep ?p) = state ?p" by (rule e)
    show "state (snd (jumpToStep i ?p)) = state ?p" for i using f by simp
    show "ran_to_end es ?start" if "state ?p = Completed" using that by (rule d)
  next
    fix ev
    assume h: "advance_event ev ?p \<and> currentStepIndex ?p = int (length (steps_p ?p)) - 1"
    from b[OF h] show "state (exec ev ?p) = Completed"
      and "currentStepIndex (exec ev ?p) = int (length (steps_p (exec ev ?p))) - 1"
      by simp_all
  next
    fix ev
    assume h: "state ?p \<noteq> Completed \<and> state (exec ev ?p) = Completed"
    from c[OF h] show "advance_event ev ?p"
      and "currentStepIndex ?p = int (length (steps_p ?p)) - 1"
      and "currentStepIndex (exec ev ?p) = int (length (steps_p (exec ev ?p))) - 1"
      by simp_all
  qed
qed

lemma demo_player_eq:
  "demo_player loop =
     \<lparr>steps_p = [mockStep, mockStep, mockStep], currentStepIndex = 0, state = Idle,
      playTimer = None,
      config = \<lparr>autoPlay = False, playbackSpeed = Num 1, loopMode = loop, showStepInfo = True\<rparr>,
      timers = [], now = 0, nextHandle = 1\<rparr>"
  by (simp add: demo_player_def loadSteps_def new_player_def defaultPlayerConfig_def setState_def Let_def)

theorem C4_playback_invariant_witness:
  "[mockStep, mockStep, mockStep] \<noteq> [] \<and>
   0 \<le> currentStepIndex (run [Invoke CPlay, Fire 1, Invoke CPause, Invoke (CJumpToStep 2), Invoke CNextStep]
          (snd (loadSteps (Some [mockStep, mockStep, mockStep]) (new_player defaultPlayerConfig)))) \<and>
   currentStepIndex (run [Invoke CPlay, Fire 1, Invoke CPause, Invoke (CJumpToStep 2), Invoke CNextStep]
          (snd (loadSteps (Some [mockStep, mockStep, mockStep]) (new_player defaultPlayerConfig))))
     \<le> int (length (steps_p (run [Invoke CPlay, Fire 1, Invoke CPause, Invoke (CJumpToStep 2), Invoke CNextStep]
          (snd (loadSteps (Some [mockStep, mockStep, mockStep]) (new_player defaultPlayerConfig)))))) - 1 \<and>
   state (run [Invoke CPlay, Fire 1, Invoke CPause, Invoke (CJumpToStep 2), Invoke CNextStep]
          (snd (loadSteps (Some [mockStep, mockStep, mockStep]) (new_player defaultPlayerConfig)))) = Completed \<and>
   ran_to_end [Invoke CPlay, Fire 1, Invoke CPause, Invoke (CJumpToStep 2), Invoke CNextStep]
          (snd (loadSteps (Some [mockStep, mockStep, mockStep]) (new_player defaultPlayerConfig))) \<and>
   advance_event (Fire 3) (run [Invoke CPlay, Fire 1, Fire 2]
          (snd (loadSteps (Some [mockStep, mockStep, mockStep]) (new_player defaultPlayerConfig)))) \<and>
   currentStepIndex (run [Invoke CPlay, Fire 1, Fire 2]
          (snd (loadSteps (Some [mockStep, mockStep, mockStep]) (new_player defaultPlayerConfig)))) = 2 \<and>
   state (run [Invoke CPlay, Fire 1, Fire 2]
          (snd (loadSteps (Some [mockStep, mockStep, mockStep]) (new_player defaultPlayerConfig)))) = Playing \<and>
   state (exec (Fire 3) (run [Invoke CPlay, Fire 1, Fire 2]
          (snd (loadSteps (Some [mockStep, mockStep, mockStep]) (new_player defaultPlayerConfig))))) = Completed \<and>
   currentStepIndex (exec (Fire 3) (run [Invoke CPlay, Fire 1, Fire 2]
          (snd (loadSteps (Some [mockStep, mockStep, mockStep]) (new_player defaultPlayerConfig))))) = 2"
  using C4_playback_invariant[of "[mockStep, mockStep, mockStep]"
          "[Invoke CPlay, Fire 1, Invoke CPause, Invoke (CJumpToStep 2), Invoke CNextStep]"
          "new_player defaultPlayerConfig"]
        C4_playback_invariant[of "[mockStep, mockStep, mockStep]"
          "[Invoke CPlay, Fire 1, Fire 2]" "new_player defaultPlayerConfig"]
  by (simp add: run_def exec_def do_call_def fire_def callback_def advance_event_def
      loadSteps_def new_player_def defaultPlayerConfig_def
      play_def pause_def nextStep_def jumpToStep_def complete_def scheduleNextStep_def
      clearTimer_def setTimeout_def clearTimeout_def setState_def Let_def)

text \<open>
  The claim as stated fails: three steps loaded, \<open>nextStep\<close> three times completes the
  playback at index 2, and \<open>previousStep\<close> then leaves the state \<open>Completed\<close> at index 1.
\<close>

theorem C4_counterexample:
  "state (run [Invoke CNextStep, Invoke CNextStep, Invoke CNextStep, Invoke CPreviousStep]
            (demo_player False)) = Completed \<and>
   currentStepIndex (run [Invoke CNextStep, Invoke CNextStep, Invoke CNextStep, Invoke CPreviousStep]
            (demo_player False)) = 1 \<and>
   int (length (steps_p (run [Invoke CNextStep, Invoke CNextStep, Invoke CNextStep, Invoke CPreviousStep]
            (demo_player False)))) - 1 = 2"
  by (simp add: run_def exec_def do_call_def demo_player_eq nextStep_def previousStep_def
      complete_def clearTimer_def setState_def Let_def)

lemma delay_finite:
  assumes "0 < s"
  shows "timeout_ms (js_div_pos 600 (Num s)) = 600 / s"
  using assms by (simp add: divide_less_0_iff)

lemma play_timers:
  assumes "state p \<noteq> Playing"
  shows "timers (play p) =
           timers p @ [\<lparr>handle = nextHandle p,
                        due = now p + timeout_ms (js_div_pos 600 (playbackSpeed (config p))),
                        kind = Advance\<rparr>] \<and>
         playTimer (play p) = Some (nextHandle p)"
  using assms
  by (simp add: play_def Let_def scheduleNextStep_def setTimeout_def)

text \<open>
  Claim C5, as amended. \<open>play()\<close> does nothing when the player is already \<open>Playing\<close>.
  From every other state, \<open>Completed\<close> included and whether or not loop mode is on, it
  makes the state \<open>Playing\<close> and schedules one advance with delay \<open>600 / speed\<close>; loop
  mode only decides whether a completed player starts again from index 0 or keeps its index.
  The delay is the quotient as \<open>setTimeout\<close> takes it, which for every finite speed
  \<open>s > 0\<close> is \<open>600 / s\<close>.
\<close>

theorem C5_play:
  "(state p = Playing \<longrightarrow> play p = p) \<and>
   (state p \<noteq> Playing \<longrightarrow>
      state (play p) = Playing \<and>
      currentStepIndex (play p) =
        (if state p = Completed \<and> loopMode (config p) then 0 else currentStepIndex p) \<and>
      timers (play p) =
        timers p @ [\<lparr>handle = nextHandle p,
                     due = now p + timeout_ms (js_div_pos 600 (playbackSpeed (config p))),
                     kind = Advance\<rparr>] \<and>
      playTimer (play p) = Some (nextHandle p)) \<and>
   (\<forall>s. 0 < s \<longrightarrow> timeout_ms (js_div_pos 600 (Num s)) = 600 / s)"
  using play_timers[of p] delay_finite by (simp add: play_def)

theorem C5_play_witness:
  "state (demo_player False) \<noteq> Playing \<and>
   state (play (demo_player False)) = Playing \<and>
   currentStepIndex (play (demo_player False)) = 0 \<and>
   timers (play (demo_player False)) = [\<lparr>handle = 1, due = 600, kind = Advance\<rparr>] \<and>
   play (play (demo_player False)) = play (demo_player False)"
  using C5_play[of "demo_player False"] C5_play[of "play (demo_player False)"]
  by (simp add: demo_player_eq)

text \<open>
  The claim as stated fails: a completed player with loop mode off leaves \<open>Completed\<close>
  on \<open>play()\<close>.
\<close>

theorem C5_counterexample:
  "state (run [Invoke CNextStep, Invoke CNextStep, Invoke CNextStep] (demo_player False)) = Completed \<and>
   \<not> loopMode (config (run [Invoke CNextStep, Invoke CNextStep, Invoke CNextStep] (demo_player False))) \<and>
   state (play (run [Invoke CNextStep, Invoke CNextStep, Invoke CNextStep] (demo_player False))) = Playing"
  by (simp add: run_def exec_def do_call_def demo_player_eq nextStep_def complete_def
      clearTimer_def setState_def Let_def)

text \<open>
  Claim C6, as amended. The store's \<open>nextStep\<close> and \<open>previousStep\<close> go through
  \<open>jumpToStep\<close>, whose guard rejects navigation while \<open>Playing\<close>: they fail with the state
  conflict exactly when the index would move, do nothing (and do not fail) at the
  boundary, and leave the store unchanged in both cases. The player's own \<open>nextStep\<close>
  and \<open>previousStep\<close> have no guard (the timeout's callback itself calls \<open>nextStep\<close>
  while \<open>Playing\<close>) and do not fail. Called while \<open>Playing\<close>, \<open>nextStep\<close> below the
  last index moves the index forward by one and keeps the state, and at the last index
  it completes the playback: the state becomes \<open>Completed\<close> and the index stays.
  \<open>previousStep\<close> above index 0 moves the index back by one, at index 0 it does
  nothing, and it keeps the state in both cases.
\<close>

theorem C6_navigation_while_playing:
  "(playerState st = Playing \<longrightarrow>
      nextStep_s env st =
        (if currentStep st < totalSteps st - 1 then Some StateConflictError else None, st) \<and>
      previousStep_s env st = (if currentStep st > 0 then Some StateConflictError else None, st)) \<and>
   (state p = Playing \<longrightarrow>
      currentStepIndex (nextStep p) =
        (if currentStepIndex p < int (length (steps_p p)) - 1 then currentStepIndex p + 1
         else currentStepIndex p) \<and>
      state (nextStep p) =
        (if currentStepIndex p < int (length (steps_p p)) - 1 then Playing else Completed) \<and>
      currentStepIndex (previousStep p) =
        (if currentStepIndex p > 0 then currentStepIndex p - 1 else currentStepIndex p) \<and>
      state (previousStep p) = Playing)"
  by (simp add: nextStep_s_def previousStep_s_def jumpToStep_s_def canNavigate_def)

theorem C6_navigation_while_playing_witness:
  "playerState playing_store = Playing \<and>
   nextStep_s (''snapshot-1'', 1) playing_store = (Some StateConflictError, playing_store) \<and>
   previousStep_s (''snapshot-1'', 1) playing_store = (Some StateConflictError, playing_store) \<and>
   nextStep_s (''snapshot-1'', 1) (playing_store\<lparr>currentStep := 2\<rparr>) =
     (None, playing_store\<lparr>currentStep := 2\<rparr>) \<and>
   state (play (demo_player False)) = Playing \<and>
   currentStepIndex (nextStep (play (demo_player False))) = 1 \<and>
   state (nextStep (play (demo_player False))) = Playing \<and>
   currentStepIndex (previousStep (nextStep (play (demo_player False)))) = 0 \<and>
   currentStepIndex (previousStep (play (demo_player False))) = 0 \<and>
   state (previousStep (play (demo_player False))) = Playing \<and>
   state (nextStep (nextStep (play (demo_player False)))) = Playing \<and>
   currentStepIndex (nextStep (nextStep (play (demo_player False)))) = 2 \<and>
   state (nextStep (nextStep (nextStep (play (demo_player False))))) = Completed \<and>
   currentStepIndex (nextStep (nextStep (nextStep (play (demo_player False))))) = 2"
  using C6_navigation_while_playing[of playing_store "(''snapshot-1'', 1)" "play (demo_player False)"]
        C6_navigation_while_playing[of "playing_store\<lparr>currentStep := 2\<rparr>" "(''snapshot-1'', 1)"
          "nextStep (play (demo_player False))"]
        C6_navigation_while_playing[of playing_store "(''snapshot-1'', 1)"
          "nextStep (nextStep (play (demo_player False)))"]
  by (simp add: playing_store_def initial_store_def totalSteps_def demo_player_eq)

text \<open>
  The claim as stated fails on the player: while \<open>Playing\<close>, \<open>nextStep()\<close> returns
  normally and moves the index from 0 to 1.
\<close>

theorem C6_counterexample:
  "state (play (demo_player False)) = Playing \<and>
   currentStepIndex (play (demo_player False)) = 0 \<and>
   currentStepIndex (nextStep (play (demo_player False))) = 1"
  by (simp add: demo_player_eq)

text \<open>
  Claim C7 on a concrete run. Three steps, loop mode on, speed 1: \<open>play()\<close> at time 0;
  the advances fire at 600, 1200 and 1800, the last one completes the playback and
  schedules the restart for 2800; the caller invokes \<open>play()\<close> at 2700, which schedules an
  advance for 3300; the restart fires at 2800, resets without cancelling that advance and
  plays again, scheduling a second advance for 3400. Two advances are now pending;
  \<open>pause()\<close> cancels only the one \<open>playTimer\<close> holds, and the other one fires while the
  player is \<open>Paused\<close> and moves the index.
\<close>

theorem C7_two_advances_pending:
  "(let p = run [Invoke CPlay, Fire 1, Fire 2, Fire 3, Wait 900, Invoke CPlay, Fire 4]
              (demo_player True)
    in state p = Playing \<and> now p = 2800 \<and>
       pending_advances p = [\<lparr>handle = 5, due = 3300, kind = Advance\<rparr>,
                             \<lparr>handle = 6, due = 3400, kind = Advance\<rparr>] \<and>
       state (pause p) = Paused \<and>
       pending_advances (pause p) = [\<lparr>handle = 5, due = 3300, kind = Advance\<rparr>] \<and>
       currentStepIndex (pause p) = 0 \<and>
       state (fire 5 (pause p)) = Paused \<and> currentStepIndex (fire 5 (pause p)) = 1)"
  by (simp add: run_def exec_def do_call_def demo_player_eq fire_def callback_def
      play_def pause_def reset_def nextStep_def complete_def scheduleNextStep_def clearTimer_def
      setTimeout_def clearTimeout_def setState_def pending_advances_def Let_def)



lemma scheduleNextStep_not_playing:
  assumes "state p \<noteq> Playing"
  shows "scheduleNextStep p = p"
  using assms by (simp add: scheduleNextStep_def)



lemma updatePlaybackSpeed_speed:
  "playbackSpeed_s (updatePlaybackSpeed env x st) = js_max (Num 0.1) (js_min (Num 5.0) x)"
  "config_playbackSpeed (updatePlaybackSpeed env x st) = js_max (Num 0.1) (js_min (Num 5.0) x)"
  by (simp_all add: updatePlaybackSpeed_def saveSnapshot_def Let_def)




text \<open>
  Claim C10. \<open>loadSteps\<close> fails on a null or empty step list and leaves the player as
  it was. A successful call stores the non-empty list and sets the index to 0, and after
  any sequence of later events the index still refers to a step of the loaded list.
\<close>

theorem C10_loadSteps:
  "(arg = None \<or> arg = Some [] \<longrightarrow> loadSteps arg p = (Some EmptyStepsError, p)) \<and>
   (\<forall>ss. arg = Some ss \<and> ss \<noteq> [] \<longrightarrow>
      fst (loadSteps arg p) = None \<and>
      steps_p (snd (loadSteps arg p)) = ss \<and>
      currentStepIndex (snd (loadSteps arg p)) = 0 \<and>
      (\<forall>es. 0 \<le> currentStepIndex (run es (snd (loadSteps arg p))) \<and>
            currentStepIndex (run es (snd (loadSteps arg p))) <
              int (length (steps_p (run es (snd (loadSteps arg p)))))))"
proof (intro conjI allI impI)
  assume "arg = None \<or> arg = Some []"
  then show "loadSteps arg p = (Some EmptyStepsError, p)"
    by (auto simp: loadSteps_def)
next
  fix ss
  assume a: "arg = Some ss \<and> ss \<noteq> []"
  then show "fst (loadSteps arg p) = None"
    by (simp add: loadSteps_def Let_def)
  from a show "steps_p (snd (loadSteps arg p)) = ss"
    by (simp add: loadSteps_def Let_def)
  from a show "currentStepIndex (snd (loadSteps arg p)) = 0"
    by (simp add: loadSteps_def Let_def)
  fix es
  have "idx_inv (snd (loadSteps arg p))"
    using loadSteps_idx_inv[of p arg] a by auto
  then have "idx_inv (run es (snd (loadSteps arg p)))"
    by (rule run_idx_inv)
  then show "0 \<le> currentStepIndex (run es (snd (loadSteps arg p)))"
    and "currentStepIndex (run es (snd (loadSteps arg p))) <
              int (length (steps_p (run es (snd (loadSteps arg p)))))"
    by (simp_all add: idx_inv_def)
qed

theorem C10_loadSteps_witness:
  "loadSteps None (demo_player False) = (Some EmptyStepsError, demo_player False) \<and>
   loadSteps (Some []) (demo_player False) = (Some EmptyStepsError, demo_player False) \<and>
   [mockStep] \<noteq> [] \<and>
   fst (loadSteps (Some [mockStep]) (demo_player False)) = None \<and>
   steps_p (snd (loadSteps (Some [mockStep]) (demo_player False))) = [mockStep] \<and>
   currentStepIndex (snd (loadSteps (Some [mockStep]) (demo_player False))) = 0 \<and>
   currentStepIndex (run [Invoke CNextStep, Invoke CNextStep]
      (snd (loadSteps (Some [mockStep]) (demo_player False)))) <
     int (length (steps_p (run [Invoke CNextStep, Invoke CNextStep]
      (snd (loadSteps (Some [mockStep]) (demo_player False))))))"
  using C10_loadSteps[of None "demo_player False"] C10_loadSteps[of "Some []" "demo_player False"]
        C10_loadSteps[of "Some [mockStep]" "demo_player False"]
  by simp

text \<open>
  Claim C8 on a concrete input. With \<open>maxSnapshots = 100\<close>, importing 101 snapshots
  leaves 101 entries in the timeline, and a snapshot saved afterwards evicts one entry
  only, so the count stays at 101.
\<close>

theorem C8_import_exceeds_bound:
  "maxSnapshots initial_store = 100 \<and>
   length (timeline (importTimeline (replicate 101 demo_snapshot) initial_store)) = 101 \<and>
   maxSnapshots (importTimeline (replicate 101 demo_snapshot) initial_store) = 100 \<and>
   length (timeline (saveSnapshot (''snapshot-2'', 2) StopPlayback
                       (importTimeline (replicate 101 demo_snapshot) initial_store))) = 101"
  by (simp add: importTimeline_def saveSnapshot_def initial_store_def Let_def)

text \<open>
  The part of the bound that holds: \<open>saveSnapshot\<close>, \<open>restoreSnapshot\<close> and
  \<open>clearTimeline\<close> keep a timeline within \<open>maxSnapshots\<close>, and saving into a full
  timeline evicts the oldest entry, appends the new one and leaves the index at the last
  position.
\<close>

theorem saveSnapshot_keeps_bound:
  assumes "length (timeline st) \<le> maxSnapshots st"
  shows "length (timeline (saveSnapshot env label st)) \<le> maxSnapshots (saveSnapshot env label st) \<and>
         maxSnapshots (saveSnapshot env label st) = maxSnapshots st \<and>
         length (timeline (snd (restoreSnapshot sid st))) \<le> maxSnapshots (snd (restoreSnapshot sid st)) \<and>
         length (timeline (clearTimeline st)) \<le> maxSnapshots (clearTimeline st) \<and>
         (\<not> isTimeTravel st \<and> length (timeline st) = maxSnapshots st \<and> 0 < maxSnapshots st \<longrightarrow>
            timeline (saveSnapshot env label st) =
              tl (timeline st) @
              [\<lparr>snap_id = fst env, timestamp = snd env, snap_description = label,
                snap_state =
                  \<lparr>s_currentData = currentData st, s_currentStep = currentStep st,
                   s_playerState = playerState st, s_selectedAlgorithm = selectedAlgorithm st,
                   s_steps = steps_s st\<rparr>\<rparr>] \<and>
            length (timeline (saveSnapshot env label st)) = maxSnapshots st \<and>
            currentSnapshotIndex (saveSnapshot env label st) = int (maxSnapshots st) - 1)"
proof -
  have r: "length (timeline (snd (restoreSnapshot sid st))) \<le> maxSnapshots (snd (restoreSnapshot sid st))"
    using assms by (simp add: restoreSnapshot_def split: option.splits)
  have c: "length (timeline (clearTimeline st)) \<le> maxSnapshots (clearTimeline st)"
    by (simp add: clearTimeline_def)
  have s: "length (timeline (saveSnapshot env label st)) \<le> maxSnapshots (saveSnapshot env label st) \<and>
         maxSnapshots (saveSnapshot env label st) = maxSnapshots st"
    using assms by (auto simp: saveSnapshot_def Let_def)
  have e: "timeline (saveSnapshot env label st) =
              tl (timeline st) @
              [\<lparr>snap_id = fst env, timestamp = snd env, snap_description = label,
                snap_state =
                  \<lparr>s_currentData = currentData st, s_currentStep = currentStep st,
                   s_playerState = playerState st, s_selectedAlgorithm = selectedAlgorithm st,
                   s_steps = steps_s st\<rparr>\<rparr>] \<and>
            length (timeline (saveSnapshot env label st)) = maxSnapshots st \<and>
            currentSnapshotIndex (saveSnapshot env label st) = int (maxSnapshots st) - 1"
    if "\<not> isTimeTravel st" "length (timeline st) = maxSnapshots st" "0 < maxSnapshots st"
  proof -
    from that have "timeline st \<noteq> []" by auto
    with that show ?thesis
      by (auto simp: saveSnapshot_def Let_def)
  qed
  from r c s e show ?thesis by blast
qed

theorem saveSnapshot_keeps_bound_witness:
  "length (timeline full_store) \<le> maxSnapshots full_store \<and>
   \<not> isTimeTravel full_store \<and> length (timeline full_store) = 100 \<and>
   length (timeline (saveSnapshot (''snapshot-2'', 2) StopPlayback full_store)) = 100 \<and>
   currentSnapshotIndex (saveSnapshot (''snapshot-2'', 2) StopPlayback full_store) = 99"
  using saveSnapshot_keeps_bound[of full_store "(''snapshot-2'', 2)" StopPlayback "''snapshot-1''"]
  by (simp add: full_store_def importTimeline_def initial_store_def Let_def)

text \<open>
  Scenario D of the specification: with three steps loaded, \<open>nextStep\<close> twice reaches
  index 2, and a third \<open>nextStep\<close> completes the playback and keeps the index.
\<close>

theorem scenario_D_next_at_end:
  "currentStepIndex (nextStep (nextStep (demo_player False))) = 2 \<and>
   state (nextStep (nextStep (demo_player False))) = Idle \<and>
   state (nextStep (nextStep (nextStep (demo_player False)))) = Completed \<and>
   currentStepIndex (nextStep (nextStep (nextStep (demo_player False)))) = 2"
  by (simp add: demo_player_eq)

text \<open>
  Exporting the timeline, clearing it and importing the export gives the timeline back.
\<close>

theorem timeline_round_trip:
  "timeline (importTimeline (snapshots (exportTimeline t st)) (clearTimeline st)) = timeline st \<and>
   totalCount (exportTimeline t st) = length (timeline st) \<and>
   timeline (clearTimeline st) = [] \<and> currentSnapshotIndex (clearTimeline st) = - 1 \<and>
   currentSnapshotIndex (importTimeline (snapshots (exportTimeline t st)) (clearTimeline st)) =
     int (length (timeline st)) - 1"
  by (simp add: importTimeline_def exportTimeline_def clearTimeline_def Let_def)

text \<open>
  The store's \<open>updatePlaybackSpeed\<close> never fails. For every argument but \<open>NaN\<close> the
  speed it stores is a finite value in \<open>[0.1, 5.0]\<close>; \<open>NaN\<close> passes through
  \<open>Math.min\<close> and \<open>Math.max\<close> and is stored as it is.
\<close>

theorem updatePlaybackSpeed_clamps:
  "playbackSpeed_s (updatePlaybackSpeed env x st) =
     (case x of Num s \<Rightarrow> Num (max 0.1 (min 5.0 s)) | PosInf \<Rightarrow> Num 5.0 | NegInf \<Rightarrow> Num 0.1
      | NaN \<Rightarrow> NaN) \<and>
   config_playbackSpeed (updatePlaybackSpeed env x st) =
     playbackSpeed_s (updatePlaybackSpeed env x st) \<and>
   (x \<noteq> NaN \<longrightarrow>
      (\<exists>s. playbackSpeed_s (updatePlaybackSpeed env x st) = Num s \<and> 0.1 \<le> s \<and> s \<le> 5.0))"
proof (intro conjI impI)
  show a: "playbackSpeed_s (updatePlaybackSpeed env x st) =
     (case x of Num s \<Rightarrow> Num (max 0.1 (min 5.0 s)) | PosInf \<Rightarrow> Num 5.0 | NegInf \<Rightarrow> Num 0.1
      | NaN \<Rightarrow> NaN)"
    by (cases x) (auto simp: updatePlaybackSpeed_speed max_def min_def)
  show "config_playbackSpeed (updatePlaybackSpeed env x st) =
          playbackSpeed_s (updatePlaybackSpeed env x st)"
    by (simp add: updatePlaybackSpeed_speed)
  assume "x \<noteq> NaN"
  then show "\<exists>s. playbackSpeed_s (updatePlaybackSpeed env x st) = Num s \<and> 0.1 \<le> s \<and> s \<le> 5.0"
  proof (cases x)
    case (Num r)
    have "(0.1 :: real) \<le> max 0.1 (min 5.0 r) \<and> max 0.1 (min 5.0 r) \<le> (5.0 :: real)"
      by (simp add: max_def min_def)
    with a Num show ?thesis by simp
  next
    case PosInf
    with a show ?thesis by simp
  next
    case NegInf
    with a show ?thesis by (intro exI[of _ "0.1"]) simp
  qed simp
qed

theorem updatePlaybackSpeed_clamps_witness:
  "Num 0.01 \<noteq> NaN \<and>
   playbackSpeed_s (updatePlaybackSpeed (''snapshot-1'', 1) (Num 0.01) initial_store) = Num 0.1 \<and>
   config_playbackSpeed (updatePlaybackSpeed (''snapshot-1'', 1) (Num 0.01) initial_store) = Num 0.1 \<and>
   playbackSpeed_s (updatePlaybackSpeed (''snapshot-1'', 1) NaN initial_store) = NaN"
  using updatePlaybackSpeed_clamps[of "(''snapshot-1'', 1)" "Num 0.01" initial_store]
        updatePlaybackSpeed_clamps[of "(''snapshot-1'', 1)" NaN initial_store]
  by simp

subsection \<open>One pending advance without loop mode\<close>

lemma play_single:
  assumes "single_advance p"
  shows "single_advance (play p)"
  using assms
  by (auto simp: single_advance_def play_def Let_def scheduleNextStep_def setTimeout_def setState_def)

lemma pause_single:
  assumes "single_advance p"
  shows "single_advance (pause p)"
  using assms
  by (auto simp: single_advance_def pause_def clearTimer_def clearTimeout_def setState_def
      split: option.splits)

lemma reset_idle_single:
  assumes "single_advance p" "state p \<noteq> Playing"
  shows "single_advance (reset p)"
  using assms
  by (auto simp: single_advance_def reset_def setState_def)

lemma stop_single:
  assumes "single_advance p"
  shows "single_advance (stop p)"
proof -
  have "state (pause p) \<noteq> Playing" by simp
  with pause_single[OF assms] show ?thesis
    unfolding stop_def by (rule reset_idle_single)
qed

lemma complete_single:
  assumes "single_advance p"
  shows "single_advance (complete p)"
  using assms
  by (auto simp: single_advance_def complete_def Let_def clearTimer_def clearTimeout_def setState_def
      split: option.splits)

lemma nextStep_single:
  assumes "single_advance p"
  shows "single_advance (nextStep p)"
proof (cases "currentStepIndex p < int (length (steps_p p)) - 1")
  case True
  with assms show ?thesis by (auto simp: nextStep_def single_advance_def)
next
  case False
  with complete_single[OF assms] show ?thesis by (simp add: nextStep_def)
qed

lemma previousStep_single:
  assumes "single_advance p"
  shows "single_advance (previousStep p)"
  using assms by (auto simp: previousStep_def single_advance_def)

lemma jumpToStep_single:
  assumes "single_advance p"
  shows "single_advance (snd (jumpToStep i p))"
  using assms by (auto simp: jumpToStep_def single_advance_def)

lemma setPlaybackSpeed_single:
  assumes "single_advance p"
  shows "single_advance (snd (setPlaybackSpeed x p))"
  using assms
  by (auto simp: single_advance_def setPlaybackSpeed_def Let_def scheduleNextStep_def
      setTimeout_def clearTimer_def clearTimeout_def split: option.splits)

lemma fire_single:
  assumes "single_advance p"
  shows "single_advance (fire h p)"
proof (cases "find (\<lambda>t. handle t = h) (timers p)")
  case None
  with assms show ?thesis by (simp add: fire_def)
next
  case (Some t)
  show ?thesis
  proof (cases "list_all (\<lambda>u. due t \<le> due u) (timers p)")
    case False
    with Some assms show ?thesis by (simp add: fire_def)
  next
    case True
    from Some assms have pl: "state p = Playing" and tm: "timers p = [t]" "kind t = Advance"
      "handle t = h"
      by (auto simp: single_advance_def split: if_splits)
    let ?q = "p\<lparr>timers := filter (\<lambda>u. handle u \<noteq> h) (timers p), now := max (now p) (due t)\<rparr>"
    have q: "timers ?q = []" "state ?q = Playing" "\<not> loopMode (config ?q)"
      using pl tm assms by (auto simp: single_advance_def)
    have "single_advance (callback Advance ?q)"
    proof (cases "currentStepIndex ?q < int (length (steps_p ?q)) - 1")
      case True
      with q show ?thesis
        by (auto simp: callback_def nextStep_def Let_def scheduleNextStep_def setTimeout_def
            single_advance_def)
    next
      case False
      with q show ?thesis
        by (auto simp: callback_def nextStep_def Let_def complete_def clearTimer_def
            clearTimeout_def setState_def single_advance_def split: option.splits)
    qed
    with Some True tm show ?thesis by (simp add: fire_def)
  qed
qed

lemma exec_single:
  assumes "single_advance p" "plain_event e"
  shows "single_advance (exec e p)"
proof (cases e)
  case (Invoke c)
  with assms play_single pause_single stop_single nextStep_single previousStep_single
    jumpToStep_single setPlaybackSpeed_single
  show ?thesis by (cases c) (simp_all add: exec_def do_call_def)
next
  case (Wait d)
  with assms show ?thesis by (auto simp: exec_def single_advance_def)
next
  case (Fire h)
  with assms fire_single show ?thesis by (simp add: exec_def)
qed

lemma run_single:
  assumes "single_advance p" "list_all plain_event es"
  shows "single_advance (run es p)"
  using assms unfolding run_def
  by (induction es arbitrary: p) (auto intro: exec_single)

lemma loadSteps_new_single:
  assumes "\<not> loopMode cfg"
  shows "single_advance (snd (loadSteps arg (new_player cfg)))"
  using assms
  by (cases arg)
     (auto simp: loadSteps_def new_player_def Let_def setState_def play_def scheduleNextStep_def
        setTimeout_def single_advance_def)

text \<open>
  Where the timer discipline does hold: with loop mode off, from a newly constructed
  player with any step list loaded, after any sequence of play, pause, stop, nextStep,
  previousStep, jumpToStep and setPlaybackSpeed calls, waits and timeouts firing, at most
  one advance is pending, and none unless the player is \<open>Playing\<close>.
\<close>

theorem no_loop_at_most_one_advance:
  assumes "\<not> loopMode cfg" "list_all plain_event es"
  shows "length (pending_advances (run es (snd (loadSteps arg (new_player cfg))))) \<le> 1 \<and>
         (state (run es (snd (loadSteps arg (new_player cfg)))) \<noteq> Playing \<longrightarrow>
            timers (run es (snd (loadSteps arg (new_player cfg)))) = [])"
proof -
  have "single_advance (run es (snd (loadSteps arg (new_player cfg))))"
    using assms by (intro run_single loadSteps_new_single)
  then show ?thesis
    by (cases "state (run es (snd (loadSteps arg (new_player cfg)))) = Playing")
       (auto simp: single_advance_def pending_advances_def)
qed

theorem no_loop_at_most_one_advance_witness:
  "\<not> loopMode defaultPlayerConfig \<and>
   list_all plain_event [Invoke CPlay, Fire 1, Invoke (CSetPlaybackSpeed (Num 2)), Invoke CPause, Invoke CPlay] \<and>
   length (pending_advances (run [Invoke CPlay, Fire 1, Invoke (CSetPlaybackSpeed (Num 2)), Invoke CPause, Invoke CPlay]
      (snd (loadSteps (Some [mockStep, mockStep, mockStep]) (new_player defaultPlayerConfig))))) \<le> 1"
  using no_loop_at_most_one_advance[of defaultPlayerConfig
          "[Invoke CPlay, Fire 1, Invoke (CSetPlaybackSpeed (Num 2)), Invoke CPause, Invoke CPlay]"
          "Some [mockStep, mockStep, mockStep]"]
  by (simp add: defaultPlayerConfig_def)

end
